theory Spec2Isabelle
  imports Main "HOL-Library.Word"
begin

unbundle bit_operations_syntax

section \<open>Data model\<close>

text \<open>
  A Go \<^verbatim>\<open>byte\<close> is an 8-bit word, a \<^verbatim>\<open>[]byte\<close> and a Go \<^verbatim>\<open>string\<close> are lists of
  bytes. Byte constants are written as string literals through \<open>B\<close>, or as the numeral of
  the character.
\<close>

type_synonym byte = "8 word"
type_synonym bytes = "byte list"

definition B :: "string \<Rightarrow> bytes" where
  "B s = map of_char s"

text \<open>
  The error values the transforms can return. \<open>LibError\<close> stands for an error of a library
  routine whose text is of no interest here.
\<close>

datatype num_err = ErrSyntax | ErrRange

datatype error =
    InvalidByteError byte
  | ErrLength
  | Base64CorruptInputError int
  | Base32CorruptInputError int
  | NumError bytes bytes num_err
  | EscapeError bytes
  | UnquoteErrSyntax
  | LibError bytes

text \<open>
  \<^verbatim>\<open>type modeFunc = func([]byte) ([]byte, error)\<close>: a transform returns a pair, the bytes
  and the error, \<open>None\<close> being \<^verbatim>\<open>nil\<close>.
\<close>

type_synonym result = "bytes \<times> error option"
type_synonym modeFunc = "bytes \<Rightarrow> result"

section \<open>The registry\<close>

text \<open>
  The table \<^verbatim>\<open>modes\<close> maps a mode name to its decoder and encoder. The entries are named
  by the functions of \<^verbatim>\<open>main.go\<close>; a \<^verbatim>\<open>nil\<close> decoder is \<open>None\<close>.
\<close>

datatype func_name =
    F_base32Dec | F_base32Enc | F_base32CrockfordDec | F_base32CrockfordEnc
  | F_base32HexDec | F_base32HexEnc | F_base64Dec | F_base64Enc
  | F_base64URLDec | F_base64URLEnc | F_codepointEnc | F_goDec | F_goEnc
  | F_hexDec | F_hexEnc | F_hexExtEnc | F_htmlDec | F_htmlEnc | F_jsonDec | F_jsonEnc
  | F_quotedPrintableDec | F_quotedPrintableEnc | F_rot13
  | F_urlPathDec | F_urlPathEnc | F_urlQueryDec | F_urlQueryEnc
  | F_float32hexDec | F_float32hexEnc | F_float16hexDec | F_float16hexEnc

record mode_entry =
  decoder :: "func_name option"
  encoder :: "func_name option"

definition modes :: "(string \<times> mode_entry) list" where
  "modes =
    [(''base32'',           \<lparr>decoder = Some F_base32Dec, encoder = Some F_base32Enc\<rparr>),
     (''base32-crockford'', \<lparr>decoder = Some F_base32CrockfordDec, encoder = Some F_base32CrockfordEnc\<rparr>),
     (''base32-hex'',       \<lparr>decoder = Some F_base32HexDec, encoder = Some F_base32HexEnc\<rparr>),
     (''base64'',           \<lparr>decoder = Some F_base64Dec, encoder = Some F_base64Enc\<rparr>),
     (''base64-url'',       \<lparr>decoder = Some F_base64URLDec, encoder = Some F_base64URLEnc\<rparr>),
     (''codepoint'',        \<lparr>decoder = None, encoder = Some F_codepointEnc\<rparr>),
     (''go'',               \<lparr>decoder = Some F_goDec, encoder = Some F_goEnc\<rparr>),
     (''hex'',              \<lparr>decoder = Some F_hexDec, encoder = Some F_hexEnc\<rparr>),
     (''hex-extended'',     \<lparr>decoder = None, encoder = Some F_hexExtEnc\<rparr>),
     (''html'',             \<lparr>decoder = Some F_htmlDec, encoder = Some F_htmlEnc\<rparr>),
     (''json'',             \<lparr>decoder = Some F_jsonDec, encoder = Some F_jsonEnc\<rparr>),
     (''qp'',               \<lparr>decoder = Some F_quotedPrintableDec, encoder = Some F_quotedPrintableEnc\<rparr>),
     (''rot13'',            \<lparr>decoder = Some F_rot13, encoder = Some F_rot13\<rparr>),
     (''url-path'',         \<lparr>decoder = Some F_urlPathDec, encoder = Some F_urlPathEnc\<rparr>),
     (''url-query'',        \<lparr>decoder = Some F_urlQueryDec, encoder = Some F_urlQueryEnc\<rparr>),
     (''float32-hex'',      \<lparr>decoder = Some F_float32hexDec, encoder = Some F_float32hexEnc\<rparr>),
     (''float16-hex'',      \<lparr>decoder = Some F_float16hexDec, encoder = Some F_float16hexEnc\<rparr>)]"

definition lookup_mode :: "string \<Rightarrow> mode_entry option" where
  "lookup_mode name = map_of modes name"

section \<open>rot13\<close>

text \<open>
  The body of the loop of \<^verbatim>\<open>rot13\<close>, on one byte: byte arithmetic, \<^verbatim>\<open>'A'\<close> is 0x41,
  \<^verbatim>\<open>'Z'\<close> 0x5A, \<^verbatim>\<open>'a'\<close> 0x61 and \<^verbatim>\<open>'z'\<close> 0x7A.
\<close>

definition rot13_byte :: "byte \<Rightarrow> byte" where
  "rot13_byte b =
     (if b \<ge> 0x41 \<and> b \<le> 0x5A then (let n = (b - 0x41 + 13) mod 26 in 0x41 + n)
      else if b \<ge> 0x61 \<and> b \<le> 0x7A then (let n = (b - 0x61 + 13) mod 26 in 0x61 + n)
      else b)"

text \<open>
  \<^verbatim>\<open>dst = src[:0]\<close> shares the backing array of \<^verbatim>\<open>src\<close>, so the \<^verbatim>\<open>append\<close> of iteration
  \<open>i\<close> overwrites element \<open>i\<close> of the array the \<^verbatim>\<open>range\<close> loop is reading. The loop is
  modelled on that one array: iteration \<open>i\<close> reads \<open>arr ! i\<close> and writes the rotated byte
  back to index \<open>i\<close>; the capacity is never exceeded, so nothing is reallocated.
\<close>

function rot13_loop :: "bytes \<Rightarrow> nat \<Rightarrow> bytes" where
  "rot13_loop arr i =
     (if i < length arr then rot13_loop (arr[i := rot13_byte (arr ! i)]) (Suc i) else arr)"
  by pat_completeness auto
termination
  by (relation "measure (\<lambda>(arr, i). length arr - i)") auto

declare rot13_loop.simps [simp del]

definition rot13 :: modeFunc where
  "rot13 src = (rot13_loop src 0, None)"

section \<open>Buffers\<close>

definition make_bytes :: "nat \<Rightarrow> bytes" where
  "make_bytes n = replicate n 0"

definition store :: "bytes \<Rightarrow> bytes \<Rightarrow> bytes" where
  "store dst out = out @ drop (length out) dst"

section \<open>encoding/hex\<close>

definition hextable :: bytes where
  "hextable = B ''0123456789abcdef''"

definition reverseHexTable :: "byte \<Rightarrow> byte" where
  "reverseHexTable c =
     (if 0x30 \<le> c \<and> c \<le> 0x39 then c - 0x30
      else if 0x61 \<le> c \<and> c \<le> 0x66 then c - 0x61 + 10
      else if 0x41 \<le> c \<and> c \<le> 0x46 then c - 0x41 + 10
      else 0xff)"

definition hex_EncodedLen :: "nat \<Rightarrow> nat" where
  "hex_EncodedLen n = n * 2"

definition hex_DecodedLen :: "nat \<Rightarrow> nat" where
  "hex_DecodedLen x = x div 2"

fun hex_Encode :: "bytes \<Rightarrow> bytes" where
  "hex_Encode [] = []"
| "hex_Encode (v # src) =
     hextable ! unat (drop_bit 4 v) # hextable ! unat (v AND 0x0f) # hex_Encode src"

fun hex_Decode :: "bytes \<Rightarrow> bytes \<times> error option" where
  "hex_Decode (p # q # src) =
     (let a = reverseHexTable p; b = reverseHexTable q in
      if a > 0x0f then ([], Some (InvalidByteError p))
      else if b > 0x0f then ([], Some (InvalidByteError q))
      else (case hex_Decode src of (out, err) \<Rightarrow> ((push_bit 4 a OR b) # out, err)))"
| "hex_Decode [p] =
     (if reverseHexTable p > 0x0f then ([], Some (InvalidByteError p)) else ([], Some ErrLength))"
| "hex_Decode [] = ([], None)"

definition hexEnc :: modeFunc where
  "hexEnc src =
     (let dst = make_bytes (hex_EncodedLen (length src))
      in (store dst (hex_Encode src), None))"

definition hexDec :: modeFunc where
  "hexDec src =
     (let dst = make_bytes (hex_DecodedLen (length src));
          (out, err) = hex_Decode src
      in (take (length out) (store dst out), err))"

section \<open>Alphabets and decode maps\<close>

text \<open>
  \<^verbatim>\<open>NewEncoding\<close> of both packages fills a 256-entry \<^verbatim>\<open>decodeMap\<close> with 0xFF and then
  stores \<open>i\<close> at the entry of the \<open>i\<close>-th character of the alphabet.
\<close>

fun fill_decodeMap :: "bytes \<Rightarrow> nat \<Rightarrow> (byte \<Rightarrow> byte) \<Rightarrow> (byte \<Rightarrow> byte)" where
  "fill_decodeMap [] i m = m"
| "fill_decodeMap (c # cs) i m = fill_decodeMap cs (Suc i) (m(c := of_nat i))"

definition newDecodeMap :: "bytes \<Rightarrow> byte \<Rightarrow> byte" where
  "newDecodeMap alphabet = fill_decodeMap alphabet 0 (\<lambda>_. 0xFF)"

section \<open>encoding/base64\<close>

record b64_Encoding =
  b64_encode :: bytes
  b64_padChar :: "byte option"
  b64_strict :: bool

definition b64_decodeMap :: "b64_Encoding \<Rightarrow> byte \<Rightarrow> byte" where
  "b64_decodeMap enc = newDecodeMap (b64_encode enc)"

definition encodeStd :: bytes where
  "encodeStd = B ''ABCDEFGHIJKLMNOPQRSTUVWXYZabcdefghijklmnopqrstuvwxyz0123456789+/''"

definition encodeURL :: bytes where
  "encodeURL = B ''ABCDEFGHIJKLMNOPQRSTUVWXYZabcdefghijklmnopqrstuvwxyz0123456789-_''"

definition StdPadding :: byte where
  "StdPadding = 0x3D"

definition b64_StdEncoding :: b64_Encoding where
  "b64_StdEncoding = \<lparr>b64_encode = encodeStd, b64_padChar = Some StdPadding, b64_strict = False\<rparr>"

definition b64_URLEncoding :: b64_Encoding where
  "b64_URLEncoding = \<lparr>b64_encode = encodeURL, b64_padChar = Some StdPadding, b64_strict = False\<rparr>"

text \<open>
  What the proofs use of an encoding: an alphabet of 64 distinct characters, no strict
  mode, and a padding character outside the alphabet that is no newline. Both encodings
  of the program are of this kind.
\<close>

definition b64_wf :: "b64_Encoding \<Rightarrow> bool" where
  "b64_wf enc \<longleftrightarrow>
     length (b64_encode enc) = 64 \<and> distinct (b64_encode enc) \<and> \<not> b64_strict enc \<and>
     (\<exists>p. b64_padChar enc = Some p \<and> p \<notin> set (b64_encode enc) \<and> p \<noteq> 0x0A \<and> p \<noteq> 0x0D)"

definition b64_EncodedLen :: "b64_Encoding \<Rightarrow> nat \<Rightarrow> nat" where
  "b64_EncodedLen enc n =
     (if b64_padChar enc = None then n div 3 * 4 + (n mod 3 * 8 + 5) div 6
      else (n + 2) div 3 * 4)"

definition b64_DecodedLen :: "b64_Encoding \<Rightarrow> nat \<Rightarrow> nat" where
  "b64_DecodedLen enc n =
     (if b64_padChar enc = None then n div 4 * 3 + n mod 4 * 6 div 8
      else n div 4 * 3)"

definition b64_pad :: "b64_Encoding \<Rightarrow> nat \<Rightarrow> bytes" where
  "b64_pad enc k = (case b64_padChar enc of None \<Rightarrow> [] | Some p \<Rightarrow> replicate k p)"

fun b64_Encode :: "b64_Encoding \<Rightarrow> bytes \<Rightarrow> bytes" where
  "b64_Encode enc (s0 # s1 # s2 # src) =
     (let val = push_bit 16 (ucast s0) OR push_bit 8 (ucast s1) OR ucast s2 :: 64 word
      in b64_encode enc ! unat (drop_bit 18 val AND 0x3F) #
         b64_encode enc ! unat (drop_bit 12 val AND 0x3F) #
         b64_encode enc ! unat (drop_bit 6 val AND 0x3F) #
         b64_encode enc ! unat (val AND 0x3F) #
         b64_Encode enc src)"
| "b64_Encode enc [s0, s1] =
     (let val = push_bit 16 (ucast s0) :: 64 word;
          val = val OR push_bit 8 (ucast s1)
      in [b64_encode enc ! unat (drop_bit 18 val AND 0x3F),
          b64_encode enc ! unat (drop_bit 12 val AND 0x3F),
          b64_encode enc ! unat (drop_bit 6 val AND 0x3F)] @ b64_pad enc 1)"
| "b64_Encode enc [s0] =
     (let val = push_bit 16 (ucast s0) :: 64 word
      in [b64_encode enc ! unat (drop_bit 18 val AND 0x3F),
          b64_encode enc ! unat (drop_bit 12 val AND 0x3F)] @ b64_pad enc 2)"
| "b64_Encode enc [] = []"

text \<open>Skipping \<^verbatim>\<open>'\n'\<close> and \<^verbatim>\<open>'\r'\<close>: the rest of the input and the new index.\<close>

fun skip_newlines :: "bytes \<Rightarrow> int \<Rightarrow> bytes \<times> int" where
  "skip_newlines [] si = ([], si)"
| "skip_newlines (c # cs) si =
     (if c = 0x0A \<or> c = 0x0D then skip_newlines cs (si + 1) else (c # cs, si))"

text \<open>
  \<^verbatim>\<open>decodeQuantum\<close>. The input is the part of \<^verbatim>\<open>src\<close> from index \<open>si\<close> on, so that
  \<^verbatim>\<open>len(src)\<close> is \<open>si\<close> plus its length. The loop over \<open>j\<close> ends in a \<^verbatim>\<open>return\<close>
  (\<open>DQ_Return\<close>: new index, rest of the input, error) or goes on to the conversion
  (\<open>DQ_Convert\<close>: new index, rest, \<^verbatim>\<open>dlen\<close>, \<^verbatim>\<open>dbuf\<close>, error).
\<close>

datatype dq_state =
    DQ_Return int bytes "error option"
  | DQ_Convert int bytes nat bytes "error option"

definition dq_padding_tail :: "int \<Rightarrow> bytes \<Rightarrow> nat \<Rightarrow> bytes \<Rightarrow> dq_state" where
  "dq_padding_tail si rest j dbuf =
     (case skip_newlines rest si of (rest', si') \<Rightarrow>
        DQ_Convert si' rest' j dbuf
          (if rest' \<noteq> [] then Some (Base64CorruptInputError si') else None))"

fun dq_loop :: "b64_Encoding \<Rightarrow> nat \<Rightarrow> int \<Rightarrow> bytes \<Rightarrow> bytes \<Rightarrow> dq_state" where
  "dq_loop enc j si dbuf [] =
     (if \<not> j < 4 then DQ_Convert si [] 4 dbuf None
      else if j = 0 then DQ_Return si [] None
      else if j = 1 \<or> b64_padChar enc \<noteq> None
        then DQ_Return si [] (Some (Base64CorruptInputError (si - int j)))
      else DQ_Convert si [] j dbuf None)"
| "dq_loop enc j si dbuf (c # rest) =
     (if \<not> j < 4 then DQ_Convert si (c # rest) 4 dbuf None
      else
        let si = si + 1; out = b64_decodeMap enc c in
        if out \<noteq> 0xff then dq_loop enc (j + 1) si (dbuf[j := out]) rest
        else if c = 0x0A \<or> c = 0x0D then dq_loop enc j si dbuf rest
        else if Some c \<noteq> b64_padChar enc
          then DQ_Return si rest (Some (Base64CorruptInputError (si - 1)))
        else if j = 0 \<or> j = 1
          then DQ_Return si rest (Some (Base64CorruptInputError (si - 1)))
        else if j = 2 then
          (case skip_newlines rest si of (rest', si') \<Rightarrow>
             (case rest' of
                [] \<Rightarrow> DQ_Return si' [] (Some (Base64CorruptInputError si'))
              | c' # rest'' \<Rightarrow>
                  if Some c' \<noteq> b64_padChar enc
                    then DQ_Return si' rest' (Some (Base64CorruptInputError (si' - 1)))
                  else dq_padding_tail (si' + 1) rest'' j dbuf))
        else dq_padding_tail si rest j dbuf)"

text \<open>
  The conversion of \<^verbatim>\<open>decodeQuantum\<close>: the new index, the rest, the bytes written to
  \<^verbatim>\<open>dst\<close> that count (\<^verbatim>\<open>n\<close> of them) and the error.
\<close>

definition dq_convert ::
  "b64_Encoding \<Rightarrow> int \<Rightarrow> bytes \<Rightarrow> nat \<Rightarrow> bytes \<Rightarrow> error option \<Rightarrow> int \<times> bytes \<times> bytes \<times> error option" where
  "dq_convert enc si rest dlen dbuf err =
     (let val = push_bit 18 (ucast (dbuf ! 0)) OR push_bit 12 (ucast (dbuf ! 1)) OR
                push_bit 6 (ucast (dbuf ! 2)) OR ucast (dbuf ! 3) :: 64 word;
          b2 = ucast val :: byte;
          b1 = ucast (drop_bit 8 val) :: byte;
          b0 = ucast (drop_bit 16 val) :: byte
      in if dlen = 4 then (si, rest, [b0, b1, b2], err)
         else if dlen = 3 then
           (if b64_strict enc \<and> b2 \<noteq> 0
              then (si, rest, [], Some (Base64CorruptInputError (si - 1)))
            else (si, rest, [b0, b1], err))
         else if dlen = 2 then
           (if b64_strict enc \<and> (b1 \<noteq> 0 \<or> b2 \<noteq> 0)
              then (si, rest, [], Some (Base64CorruptInputError (si - 2)))
            else (si, rest, [b0], err))
         else (si, rest, [], err))"

definition decodeQuantum :: "b64_Encoding \<Rightarrow> int \<Rightarrow> bytes \<Rightarrow> int \<times> bytes \<times> bytes \<times> error option" where
  "decodeQuantum enc si rest =
     (case dq_loop enc 0 si [0, 0, 0, 0] rest of
        DQ_Return si' rest' err \<Rightarrow> (si', rest', [], err)
      | DQ_Convert si' rest' dlen dbuf err \<Rightarrow> dq_convert enc si' rest' dlen dbuf err)"

lemma length_skip_newlines:
  "skip_newlines rest si = (rest', si') \<Longrightarrow> length rest' \<le> length rest"
  by (induction rest si rule: skip_newlines.induct) (auto split: if_splits)

fun dq_rest :: "dq_state \<Rightarrow> bytes" where
  "dq_rest (DQ_Return si rest err) = rest"
| "dq_rest (DQ_Convert si rest dlen dbuf err) = rest"

lemma dq_loop_rest_le: "length (dq_rest (dq_loop enc j si dbuf rest)) \<le> length rest"
proof (induction enc j si dbuf rest rule: dq_loop.induct)
  case (1 enc j si dbuf)
  then show ?case by simp
next
  case (2 enc j si dbuf c rest)
  show ?case
    using 2 length_skip_newlines[of rest "si + 1"]
    by (auto simp: Let_def dq_padding_tail_def le_SucI split: prod.splits list.splits
             dest!: length_skip_newlines)
qed

lemma dq_loop_rest_less:
  "j < 4 \<Longrightarrow> rest \<noteq> [] \<Longrightarrow> length (dq_rest (dq_loop enc j si dbuf rest)) < length rest"
proof (cases rest)
  case Nil
  assume "rest \<noteq> []"
  with Nil show ?thesis by simp
next
  case (Cons c rest2)
  assume j: "j < 4"
  show ?thesis
    using j dq_loop_rest_le[of enc "j + 1" "si + 1" "dbuf[j := b64_decodeMap enc c]" rest2]
      dq_loop_rest_le[of enc j "si + 1" dbuf rest2]
    unfolding Cons
    by (auto simp: Let_def dq_padding_tail_def less_Suc_eq_le split: prod.splits list.splits
             dest!: length_skip_newlines)
qed

lemma decodeQuantum_consumes:
  assumes "decodeQuantum enc si rest = (si', rest', out, err)" "rest \<noteq> []"
  shows "length rest' < length rest"
proof -
  have "rest' = dq_rest (dq_loop enc 0 si [0, 0, 0, 0] rest)"
    using assms(1)
    by (auto simp: decodeQuantum_def dq_convert_def Let_def split: dq_state.splits if_splits)
  then show ?thesis
    using dq_loop_rest_less[of 0 rest enc si "[0, 0, 0, 0]"] assms(2) by simp
qed

declare dq_loop.simps [simp del]

text \<open>
  The loop of \<^verbatim>\<open>Decode\<close>: \<^verbatim>\<open>decodeQuantum\<close> is called until the input is used up or an
  error is returned; the bytes of every quantum are appended. (The library first tries to
  decode eight or four alphabet characters at once; on such characters this gives the
  bytes of \<^verbatim>\<open>decodeQuantum\<close>, to which it falls back otherwise.)
\<close>

function b64_decode_loop :: "b64_Encoding \<Rightarrow> int \<Rightarrow> bytes \<Rightarrow> bytes \<times> error option" where
  "b64_decode_loop enc si rest =
     (if rest = [] then ([], None)
      else
        (case decodeQuantum enc si rest of
           (si', rest', out, err) \<Rightarrow>
             if err \<noteq> None then (out, err)
             else (case b64_decode_loop enc si' rest' of (out', err') \<Rightarrow> (out @ out', err'))))"
  by pat_completeness auto
termination
  by (relation "measure (\<lambda>(enc, si, rest). length rest)")
     (auto dest: decodeQuantum_consumes[OF sym])

declare b64_decode_loop.simps [simp del]

definition b64_Decode :: "b64_Encoding \<Rightarrow> bytes \<Rightarrow> bytes \<times> error option" where
  "b64_Decode enc src = (if length src = 0 then ([], None) else b64_decode_loop enc 0 src)"

definition base64Enc :: modeFunc where
  "base64Enc src =
     (let dst = make_bytes (b64_EncodedLen b64_StdEncoding (length src))
      in (store dst (b64_Encode b64_StdEncoding src), None))"

definition base64Dec :: modeFunc where
  "base64Dec src =
     (let dst = make_bytes (b64_DecodedLen b64_StdEncoding (length src));
          (out, err) = b64_Decode b64_StdEncoding src
      in (take (length out) (store dst out), err))"

definition base64URLEnc :: modeFunc where
  "base64URLEnc src =
     (let dst = make_bytes (b64_EncodedLen b64_URLEncoding (length src))
      in (store dst (b64_Encode b64_URLEncoding src), None))"

definition base64URLDec :: modeFunc where
  "base64URLDec src =
     (let dst = make_bytes (b64_DecodedLen b64_URLEncoding (length src));
          (out, err) = b64_Decode b64_URLEncoding src
      in (take (length out) (store dst out), err))"



section \<open>encoding/base32\<close>

record b32_Encoding =
  b32_encode :: bytes
  b32_padChar :: "byte option"

definition b32_decodeMap :: "b32_Encoding \<Rightarrow> byte \<Rightarrow> byte" where
  "b32_decodeMap enc = newDecodeMap (b32_encode enc)"

text \<open>\<^verbatim>\<open>byte(enc.padChar)\<close>; \<^verbatim>\<open>NoPadding\<close> is the rune -1, whose low byte is 0xFF.\<close>

definition b32_padByte :: "b32_Encoding \<Rightarrow> byte" where
  "b32_padByte enc = (case b32_padChar enc of None \<Rightarrow> 0xFF | Some p \<Rightarrow> p)"

definition b32_NewEncoding :: "bytes \<Rightarrow> b32_Encoding" where
  "b32_NewEncoding alphabet = \<lparr>b32_encode = alphabet, b32_padChar = Some StdPadding\<rparr>"

definition b32_StdEncoding :: b32_Encoding where
  "b32_StdEncoding = b32_NewEncoding (B ''ABCDEFGHIJKLMNOPQRSTUVWXYZ234567'')"

definition b32_HexEncoding :: b32_Encoding where
  "b32_HexEncoding = b32_NewEncoding (B ''0123456789ABCDEFGHIJKLMNOPQRSTUV'')"

text \<open>
  What the proofs use of a base32 encoding: 32 distinct characters, none of them a
  newline, and a padding character outside the alphabet that is no newline.
\<close>

definition b32_wf :: "b32_Encoding \<Rightarrow> bool" where
  "b32_wf enc \<longleftrightarrow>
     length (b32_encode enc) = 32 \<and> distinct (b32_encode enc) \<and>
     0x0A \<notin> set (b32_encode enc) \<and> 0x0D \<notin> set (b32_encode enc) \<and>
     (\<exists>p. b32_padChar enc = Some p \<and> p \<notin> set (b32_encode enc) \<and> p \<noteq> 0x0A \<and> p \<noteq> 0x0D)"

definition b32_EncodedLen :: "b32_Encoding \<Rightarrow> nat \<Rightarrow> nat" where
  "b32_EncodedLen enc n =
     (if b32_padChar enc = None then n div 5 * 8 + (n mod 5 * 8 + 4) div 5
      else (n + 4) div 5 * 8)"

definition b32_DecodedLen :: "b32_Encoding \<Rightarrow> nat \<Rightarrow> nat" where
  "b32_DecodedLen enc n =
     (if b32_padChar enc = None then n * 5 div 8
      else n div 8 * 5)"

definition b32_pad :: "b32_Encoding \<Rightarrow> nat \<Rightarrow> bytes" where
  "b32_pad enc k = (case b32_padChar enc of None \<Rightarrow> [] | Some p \<Rightarrow> replicate k p)"

text \<open>
  The eight 5-bit groups \<^verbatim>\<open>b[0..7]\<close> of a quantum of up to five bytes (absent bytes
  contribute nothing), in byte arithmetic as in \<^verbatim>\<open>Encode\<close>.
\<close>

definition b32_groups :: "bytes \<Rightarrow> bytes" where
  "b32_groups q =
     (let n = length q;
          s0 = (if 0 < n then q ! 0 else 0); s1 = (if 1 < n then q ! 1 else 0);
          s2 = (if 2 < n then q ! 2 else 0); s3 = (if 3 < n then q ! 3 else 0);
          s4 = (if 4 < n then q ! 4 else 0)
      in [drop_bit 3 s0,
          (push_bit 2 s0 AND 0x1F) OR (drop_bit 6 s1 AND 0x1F),
          drop_bit 1 s1 AND 0x1F,
          (push_bit 4 s1 AND 0x1F) OR (drop_bit 4 s2 AND 0x1F),
          (push_bit 1 s2 AND 0x1F) OR drop_bit 7 s3,
          drop_bit 2 s3 AND 0x1F,
          (push_bit 3 s3 AND 0x1F) OR drop_bit 5 s4,
          s4 AND 0x1F])"

definition b32_chars :: "b32_Encoding \<Rightarrow> bytes \<Rightarrow> bytes" where
  "b32_chars enc gs = map (\<lambda>g. b32_encode enc ! unat (g AND 31)) gs"

fun b32_Encode :: "b32_Encoding \<Rightarrow> bytes \<Rightarrow> bytes" where
  "b32_Encode enc (s0 # s1 # s2 # s3 # s4 # src) =
     b32_chars enc (b32_groups [s0, s1, s2, s3, s4]) @ b32_Encode enc src"
| "b32_Encode enc [s0, s1, s2, s3] =
     b32_chars enc (take 7 (b32_groups [s0, s1, s2, s3])) @ b32_pad enc 1"
| "b32_Encode enc [s0, s1, s2] =
     b32_chars enc (take 5 (b32_groups [s0, s1, s2])) @ b32_pad enc 3"
| "b32_Encode enc [s0, s1] =
     b32_chars enc (take 4 (b32_groups [s0, s1])) @ b32_pad enc 4"
| "b32_Encode enc [s0] =
     b32_chars enc (take 2 (b32_groups [s0])) @ b32_pad enc 6"
| "b32_Encode enc [] = []"

definition stripNewlines :: "bytes \<Rightarrow> bytes" where
  "stripNewlines src = filter (\<lambda>b. \<not> (b = 0x0D \<or> b = 0x0A)) src"

text \<open>
  The inner loop of \<^verbatim>\<open>decode\<close> over \<open>j\<close>, on the rest of the input. It returns an error
  (\<open>Q_Err\<close>) or the quantum read: \<^verbatim>\<open>dlen\<close>, \<^verbatim>\<open>end\<close>, \<^verbatim>\<open>dbuf\<close> and the rest.
\<close>

datatype b32_quantum =
    Q_Err error
  | Q_Read nat bool bytes bytes

fun b32_read :: "b32_Encoding \<Rightarrow> int \<Rightarrow> nat \<Rightarrow> bytes \<Rightarrow> bytes \<Rightarrow> b32_quantum" where
  "b32_read enc olen j dbuf [] =
     (if \<not> j < 8 then Q_Read 8 False dbuf []
      else if b32_padChar enc \<noteq> None
        then Q_Err (Base32CorruptInputError (olen - 0 - int j))
      else Q_Read j True dbuf [])"
| "b32_read enc olen j dbuf (c # src) =
     (if \<not> j < 8 then Q_Read 8 False dbuf (c # src)
      else if c = b32_padByte enc \<and> j \<ge> 2 \<and> length src < 8 then
        (if length src + j < 8 - 1 then Q_Err (Base32CorruptInputError olen)
         else
           (case filter (\<lambda>k. length src > k \<and> src ! k \<noteq> b32_padByte enc) [0 ..< 8 - 1 - j] of
              k # ks \<Rightarrow> Q_Err (Base32CorruptInputError (olen - int (length src) + int k - 1))
            | [] \<Rightarrow>
                if j = 1 \<or> j = 3 \<or> j = 6
                  then Q_Err (Base32CorruptInputError (olen - int (length src) - 1))
                else Q_Read j True dbuf src))
      else
        (let d = b32_decodeMap enc c in
         if d = 0xFF then Q_Err (Base32CorruptInputError (olen - int (length src) - 1))
         else b32_read enc olen (j + 1) (dbuf[j := d]) src))"

text \<open>The bytes a quantum of \<^verbatim>\<open>dlen\<close> groups packs into \<^verbatim>\<open>dst\<close>.\<close>

definition b32_pack :: "nat \<Rightarrow> bytes \<Rightarrow> bytes" where
  "b32_pack dlen dbuf =
     (let b4 = push_bit 5 (dbuf ! 6) OR dbuf ! 7;
          b3 = push_bit 7 (dbuf ! 4) OR push_bit 2 (dbuf ! 5) OR drop_bit 3 (dbuf ! 6);
          b2 = push_bit 4 (dbuf ! 3) OR drop_bit 1 (dbuf ! 4);
          b1 = push_bit 6 (dbuf ! 1) OR push_bit 1 (dbuf ! 2) OR drop_bit 4 (dbuf ! 3);
          b0 = push_bit 3 (dbuf ! 0) OR drop_bit 2 (dbuf ! 1)
      in if dlen = 8 then [b0, b1, b2, b3, b4]
         else if dlen = 7 then [b0, b1, b2, b3]
         else if dlen = 5 then [b0, b1, b2]
         else if dlen = 4 then [b0, b1]
         else if dlen = 2 then [b0]
         else [])"

lemma b32_read_rest:
  "b32_read enc olen j dbuf src = Q_Read dlen e dbuf' rest \<Longrightarrow> length rest \<le> length src"
  by (induction enc olen j dbuf src rule: b32_read.induct)
     (auto simp: Let_def le_SucI split: if_splits list.splits)

lemma b32_read_consumes:
  assumes "b32_read enc olen 0 dbuf src = Q_Read dlen e dbuf' rest" "src \<noteq> []"
  shows "length rest < length src"
proof (cases src)
  case Nil
  with assms(2) show ?thesis by simp
next
  case (Cons c src2)
  have "b32_read enc olen 1 (dbuf[0 := b32_decodeMap enc c]) src2 = Q_Read dlen e dbuf' rest"
    using assms(1) unfolding Cons by (auto simp: Let_def split: if_splits)
  from b32_read_rest[OF this] show ?thesis unfolding Cons by simp
qed

function b32_decode :: "b32_Encoding \<Rightarrow> int \<Rightarrow> bytes \<Rightarrow> bool \<Rightarrow> bytes \<times> error option" where
  "b32_decode enc olen src e =
     (if \<not> (length src > 0 \<and> \<not> e) then ([], None)
      else
        (case b32_read enc olen 0 [0, 0, 0, 0, 0, 0, 0, 0] src of
           Q_Err err \<Rightarrow> ([], Some err)
         | Q_Read dlen e' dbuf rest \<Rightarrow>
             (case b32_decode enc olen rest e' of
                (out, err) \<Rightarrow> (b32_pack dlen dbuf @ out, err))))"
  by pat_completeness auto
termination
  by (relation "measure (\<lambda>(enc, olen, src, e). length src)")
     (auto dest: b32_read_consumes)

declare b32_read.simps [simp del]

declare b32_decode.simps [simp del]

definition b32_Decode :: "b32_Encoding \<Rightarrow> bytes \<Rightarrow> bytes \<times> error option" where
  "b32_Decode enc src =
     (let buf = stripNewlines src in b32_decode enc (int (length buf)) buf False)"

definition base32Enc :: modeFunc where
  "base32Enc src =
     (let dst = make_bytes (b32_EncodedLen b32_StdEncoding (length src))
      in (store dst (b32_Encode b32_StdEncoding src), None))"

definition base32Dec :: modeFunc where
  "base32Dec src =
     (let dst = make_bytes (b32_DecodedLen b32_StdEncoding (length src));
          (out, err) = b32_Decode b32_StdEncoding src
      in (take (length out) (store dst out), err))"

definition base32HexEnc :: modeFunc where
  "base32HexEnc src =
     (let dst = make_bytes (b32_EncodedLen b32_HexEncoding (length src))
      in (store dst (b32_Encode b32_HexEncoding src), None))"

definition base32HexDec :: modeFunc where
  "base32HexDec src =
     (let dst = make_bytes (b32_DecodedLen b32_HexEncoding (length src));
          (out, err) = b32_Decode b32_HexEncoding src
      in (take (length out) (store dst out), err))"

definition crockfordEnc :: b32_Encoding where
  "crockfordEnc = b32_NewEncoding (B ''0123456789ABCDEFGHJKMNPQRSTVWXYZ'')"

definition base32CrockfordEnc :: modeFunc where
  "base32CrockfordEnc src =
     (let dst = make_bytes (b32_EncodedLen crockfordEnc (length src))
      in (store dst (b32_Encode crockfordEnc src), None))"

section \<open>bytes.ToUpper, bytes.Replace and the Crockford decoder\<close>

text \<open>
  \<^verbatim>\<open>bytes.ToUpper\<close>: when every byte is ASCII (below \<^verbatim>\<open>utf8.RuneSelf\<close> = 0x80), the
  letters \<^verbatim>\<open>'a'\<close>..\<^verbatim>\<open>'z'\<close> are moved to upper case by subtracting \<^verbatim>\<open>'a' - 'A'\<close>; otherwise
  the library maps \<^verbatim>\<open>unicode.ToUpper\<close> over the decoded runes, which depends on the
  Unicode case tables and is taken as the parameter \<open>unicodeUpper\<close>.
\<close>

definition isASCII :: "bytes \<Rightarrow> bool" where
  "isASCII s = list_all (\<lambda>c. c < 0x80) s"

definition ascii_upper :: "byte \<Rightarrow> byte" where
  "ascii_upper c = (if 0x61 \<le> c \<and> c \<le> 0x7A then c - (0x61 - 0x41) else c)"

definition bytes_ToUpper :: "(bytes \<Rightarrow> bytes) \<Rightarrow> bytes \<Rightarrow> bytes" where
  "bytes_ToUpper unicodeUpper s = (if isASCII s then map ascii_upper s else unicodeUpper s)"

text \<open>
  \<^verbatim>\<open>bytes.Replace(s, old, new, -1)\<close> for an \<^verbatim>\<open>old\<close> of one byte, the only use the program
  makes of it: every occurrence of the byte is replaced by \<^verbatim>\<open>new\<close>.
\<close>

fun bytes_Replace :: "bytes \<Rightarrow> byte \<Rightarrow> bytes \<Rightarrow> bytes" where
  "bytes_Replace [] old new = []"
| "bytes_Replace (c # s) old new =
     (if c = old then new @ bytes_Replace s old new else c # bytes_Replace s old new)"

definition crockford_normalize :: "(bytes \<Rightarrow> bytes) \<Rightarrow> bytes \<Rightarrow> bytes" where
  "crockford_normalize unicodeUpper src =
     (let src = bytes_ToUpper unicodeUpper src;
          src = bytes_Replace src 0x49 (B ''1'');
          src = bytes_Replace src 0x4C (B ''1'');
          src = bytes_Replace src 0x4F (B ''0'');
          src = bytes_Replace src 0x2D []
      in src)"

definition base32CrockfordDec :: "(bytes \<Rightarrow> bytes) \<Rightarrow> modeFunc" where
  "base32CrockfordDec unicodeUpper src =
     (let src = crockford_normalize unicodeUpper src;
          dst = make_bytes (b32_DecodedLen crockfordEnc (length src));
          (out, err) = b32_Decode crockfordEnc src
      in (take (length out) (store dst out), err))"

text \<open>
  The changes of an encoded text the decoder is meant to tolerate, as a relation between
  the text and the changed text: a letter written in the other case, \<^verbatim>\<open>I\<close> or \<^verbatim>\<open>L\<close>
  written for \<^verbatim>\<open>1\<close> and \<^verbatim>\<open>O\<close> for \<^verbatim>\<open>0\<close> (or the reverse), a \<^verbatim>\<open>-\<close> put in anywhere, and
  any sequence of such changes.
\<close>

definition is_letter :: "byte \<Rightarrow> bool" where
  "is_letter c = ((0x41 \<le> c \<and> c \<le> 0x5A) \<or> (0x61 \<le> c \<and> c \<le> 0x7A))"

definition swap_case :: "byte \<Rightarrow> byte" where
  "swap_case c = (if 0x41 \<le> c \<and> c \<le> 0x5A then c + 0x20 else c - 0x20)"

inductive crock_variant :: "bytes \<Rightarrow> bytes \<Rightarrow> bool" where
  V_Nil: "crock_variant [] []"
| V_Keep: "crock_variant t t' \<Longrightarrow> crock_variant (c # t) (c # t')"
| V_Case: "crock_variant t t' \<Longrightarrow> is_letter c \<Longrightarrow> crock_variant (c # t) (swap_case c # t')"
| V_IL: "crock_variant t t' \<Longrightarrow> c = 0x49 \<or> c = 0x4C \<Longrightarrow> crock_variant (c # t) (0x31 # t')"
| V_O: "crock_variant t t' \<Longrightarrow> crock_variant (0x4F # t) (0x30 # t')"
| V_Dash: "crock_variant t t' \<Longrightarrow> crock_variant t (0x2D # t')"
| V_Sym: "crock_variant t t' \<Longrightarrow> crock_variant t' t"
| V_Trans: "crock_variant t t' \<Longrightarrow> crock_variant t' t'' \<Longrightarrow> crock_variant t t''"

section \<open>net/url: unescaping\<close>

text \<open>
  \<^verbatim>\<open>url.PathUnescape\<close> and \<^verbatim>\<open>url.QueryUnescape\<close> call \<^verbatim>\<open>unescape\<close> with the modes
  \<^verbatim>\<open>encodePathSegment\<close> and \<^verbatim>\<open>encodeQueryComponent\<close>. (The branches of \<^verbatim>\<open>unescape\<close> for
  the modes \<^verbatim>\<open>encodeHost\<close> and \<^verbatim>\<open>encodeZone\<close> are not reached with these two.)
\<close>

datatype url_encoding = encodePathSegment | encodeQueryComponent

definition ishex :: "byte \<Rightarrow> bool" where
  "ishex c = ((0x30 \<le> c \<and> c \<le> 0x39) \<or> (0x61 \<le> c \<and> c \<le> 0x66) \<or> (0x41 \<le> c \<and> c \<le> 0x46))"

definition unhex :: "byte \<Rightarrow> byte" where
  "unhex c =
     (if 0x30 \<le> c \<and> c \<le> 0x39 then c - 0x30
      else if 0x61 \<le> c \<and> c \<le> 0x66 then c - 0x61 + 10
      else if 0x41 \<le> c \<and> c \<le> 0x46 then c - 0x41 + 10
      else 0)"

text \<open>
  The first loop of \<^verbatim>\<open>unescape\<close>, on the rest of the string from index \<open>i\<close> on: it counts
  the \<^verbatim>\<open>%\<close> in \<open>n\<close>, sets \<^verbatim>\<open>hasPlus\<close>, and fails on a \<^verbatim>\<open>%\<close> that is not followed by two
  hex digits, with the (at most three) bytes from the \<^verbatim>\<open>%\<close> on as the error.
\<close>

fun unescape_scan :: "url_encoding \<Rightarrow> nat \<Rightarrow> bool \<Rightarrow> bytes \<Rightarrow> error + (nat \<times> bool)" where
  "unescape_scan mode n hasPlus [] = Inr (n, hasPlus)"
| "unescape_scan mode n hasPlus (c # s) =
     (if c = 0x25 then
        (case s of
           a # b # s' \<Rightarrow>
             if \<not> ishex a \<or> \<not> ishex b then Inl (EscapeError (take 3 (c # s)))
             else unescape_scan mode (n + 1) hasPlus s'
         | _ \<Rightarrow> Inl (EscapeError (take 3 (c # s))))
      else if c = 0x2B then unescape_scan mode n (mode = encodeQueryComponent) s
      else unescape_scan mode n hasPlus s)"

text \<open>
  The second loop writes the result. It reads the two bytes after a \<^verbatim>\<open>%\<close> without a
  check; where they are missing the Go code would panic, which is \<open>None\<close> here (the first
  loop excludes it).
\<close>

fun unescape_write :: "url_encoding \<Rightarrow> bytes \<Rightarrow> bytes option" where
  "unescape_write mode [] = Some []"
| "unescape_write mode (c # s) =
     (if c = 0x25 then
        (case s of
           a # b # s' \<Rightarrow> map_option ((#) (push_bit 4 (unhex a) OR unhex b)) (unescape_write mode s')
         | _ \<Rightarrow> None)
      else if c = 0x2B then
        map_option ((#) (if mode = encodeQueryComponent then 0x20 else 0x2B)) (unescape_write mode s)
      else map_option ((#) c) (unescape_write mode s))"

text \<open>\<^verbatim>\<open>unescape\<close>: \<open>None\<close> is the panic, otherwise the string and the error.\<close>

definition unescape :: "bytes \<Rightarrow> url_encoding \<Rightarrow> (bytes \<times> error option) option" where
  "unescape s mode =
     (case unescape_scan mode 0 False s of
        Inl e \<Rightarrow> Some ([], Some e)
      | Inr (n, hasPlus) \<Rightarrow>
          if n = 0 \<and> \<not> hasPlus then Some (s, None)
          else map_option (\<lambda>t. (t, None)) (unescape_write mode s))"

definition url_PathUnescape :: "bytes \<Rightarrow> (bytes \<times> error option) option" where
  "url_PathUnescape s = unescape s encodePathSegment"

definition url_QueryUnescape :: "bytes \<Rightarrow> (bytes \<times> error option) option" where
  "url_QueryUnescape s = unescape s encodeQueryComponent"

text \<open>The two decoders of \<^verbatim>\<open>main.go\<close>; \<open>None\<close> is a panic of the library call.\<close>

definition urlPathDec :: "bytes \<Rightarrow> result option" where
  "urlPathDec src = map_option (\<lambda>(s, err). (s, err)) (url_PathUnescape src)"

definition urlQueryDec :: "bytes \<Rightarrow> result option" where
  "urlQueryDec src = map_option (\<lambda>(s, err). (s, err)) (url_QueryUnescape src)"

section \<open>unicode/utf8\<close>

text \<open>
  A \<^verbatim>\<open>rune\<close> is modelled as an integer. \<^verbatim>\<open>utf8.DecodeRune\<close> returns the rune and its width
  in bytes; an invalid or short encoding gives \<^verbatim>\<open>RuneError\<close> (U+FFFD) and width 1, the
  empty input \<^verbatim>\<open>RuneError\<close> and width 0. The table \<^verbatim>\<open>first\<close> gives, for the first byte,
  the width and the range accepted for the second byte.
\<close>

type_synonym rune = int

definition RuneError :: rune where
  "RuneError = 0xFFFD"

definition RuneSelf :: byte where
  "RuneSelf = 0x80"

text \<open>The entry of \<^verbatim>\<open>first\<close> for a byte from 0xC2 on: width, and the bounds of \<^verbatim>\<open>acceptRanges\<close>.\<close>

definition utf8_first :: "byte \<Rightarrow> (nat \<times> byte \<times> byte) option" where
  "utf8_first b =
     (if b < 0xC2 then None
      else if b \<le> 0xDF then Some (2, 0x80, 0xBF)
      else if b = 0xE0 then Some (3, 0xA0, 0xBF)
      else if b \<le> 0xEC then Some (3, 0x80, 0xBF)
      else if b = 0xED then Some (3, 0x80, 0x9F)
      else if b \<le> 0xEF then Some (3, 0x80, 0xBF)
      else if b = 0xF0 then Some (4, 0x90, 0xBF)
      else if b \<le> 0xF3 then Some (4, 0x80, 0xBF)
      else if b = 0xF4 then Some (4, 0x80, 0x8F)
      else None)"

definition rune_of :: "32 word \<Rightarrow> rune" where
  "rune_of w = uint w"

definition utf8_DecodeRune :: "bytes \<Rightarrow> rune \<times> nat" where
  "utf8_DecodeRune p =
     (case p of
        [] \<Rightarrow> (RuneError, 0)
      | s0 # p1 \<Rightarrow>
          if s0 < RuneSelf then (uint s0, 1)
          else
            (case utf8_first s0 of
               None \<Rightarrow> (RuneError, 1)
             | Some (sz, lo, hi) \<Rightarrow>
                 if length p < sz then (RuneError, 1)
                 else
                   let s1 = p ! 1 in
                   if s1 < lo \<or> hi < s1 then (RuneError, 1)
                   else if sz \<le> 2 then
                     (rune_of (push_bit 6 (ucast (s0 AND 0x1F)) OR ucast (s1 AND 0x3F)), 2)
                   else
                     let s2 = p ! 2 in
                     if s2 < 0x80 \<or> 0xBF < s2 then (RuneError, 1)
                     else if sz \<le> 3 then
                       (rune_of (push_bit 12 (ucast (s0 AND 0x0F)) OR push_bit 6 (ucast (s1 AND 0x3F))
                                 OR ucast (s2 AND 0x3F)), 3)
                     else
                       let s3 = p ! 3 in
                       if s3 < 0x80 \<or> 0xBF < s3 then (RuneError, 1)
                       else
                         (rune_of (push_bit 18 (ucast (s0 AND 0x07)) OR push_bit 12 (ucast (s1 AND 0x3F))
                                   OR push_bit 6 (ucast (s2 AND 0x3F)) OR ucast (s3 AND 0x3F)), 4)))"

text \<open>
  \<^verbatim>\<open>utf8.AppendRune\<close> (and \<^verbatim>\<open>string(r)\<close>): the encoding of a rune; a rune out of range or
  a surrogate is encoded as \<^verbatim>\<open>RuneError\<close>.
\<close>

definition utf8_encode3 :: "32 word \<Rightarrow> bytes" where
  "utf8_encode3 r =
     [0xE0 OR ucast (drop_bit 12 r), 0x80 OR (ucast (drop_bit 6 r) AND 0x3F), 0x80 OR (ucast r AND 0x3F)]"

definition utf8_AppendRune :: "rune \<Rightarrow> bytes" where
  "utf8_AppendRune r =
     (if 0 \<le> r \<and> r \<le> 0x7F then [word_of_int r]
      else if 0 \<le> r \<and> r \<le> 0x7FF then
        [0xC0 OR ucast (drop_bit 6 (word_of_int r :: 32 word)),
         0x80 OR (ucast (word_of_int r :: 32 word) AND 0x3F)]
      else if r < 0 \<or> r > 0x10FFFF \<or> (0xD800 \<le> r \<and> r \<le> 0xDFFF) then utf8_encode3 0xFFFD
      else if r \<le> 0xFFFF then utf8_encode3 (word_of_int r)
      else
        [0xF0 OR ucast (drop_bit 18 (word_of_int r :: 32 word)),
         0x80 OR (ucast (drop_bit 12 (word_of_int r :: 32 word)) AND 0x3F),
         0x80 OR (ucast (drop_bit 6 (word_of_int r :: 32 word)) AND 0x3F),
         0x80 OR (ucast (word_of_int r :: 32 word) AND 0x3F)])"

definition utf8_ValidRune :: "rune \<Rightarrow> bool" where
  "utf8_ValidRune r = ((0 \<le> r \<and> r < 0xD800) \<or> (0xDFFF < r \<and> r \<le> 0x10FFFF))"

lemma utf8_DecodeRune_width: "p \<noteq> [] \<Longrightarrow> 0 < snd (utf8_DecodeRune p)"
  by (auto simp: utf8_DecodeRune_def Let_def split: list.splits option.splits)

lemma utf8_DecodeRune_pos: "(r, w) = utf8_DecodeRune s \<Longrightarrow> s \<noteq> [] \<Longrightarrow> 0 < w"
  using utf8_DecodeRune_width[of s] by (metis snd_conv)

text \<open>
  The runes of a string with their encodings, as a \<^verbatim>\<open>range\<close> loop over the string (and
  the conversion \<^verbatim>\<open>[]rune(s)\<close>) reads them: each step decodes one rune and moves on by
  its width.
\<close>

function runes_of :: "bytes \<Rightarrow> (rune \<times> bytes) list" where
  "runes_of s =
     (if s = [] then []
      else
        (case utf8_DecodeRune s of
           (r, w) \<Rightarrow> (r, take w s) # runes_of (drop w s)))"
  by pat_completeness auto
termination
  by (relation "measure length") (auto dest: utf8_DecodeRune_pos)

declare runes_of.simps [simp del]

section \<open>strings.Fields\<close>

text \<open>
  \<^verbatim>\<open>strings.Fields\<close> splits around runs of white space. When every byte is ASCII the white
  space is the table \<^verbatim>\<open>asciiSpace\<close>; otherwise the string is read rune by rune and
  \<^verbatim>\<open>unicode.IsSpace\<close> decides.
\<close>

definition asciiSpace :: "byte \<Rightarrow> bool" where
  "asciiSpace c = (c = 0x09 \<or> c = 0x0A \<or> c = 0x0B \<or> c = 0x0C \<or> c = 0x0D \<or> c = 0x20)"

definition unicode_IsSpace :: "rune \<Rightarrow> bool" where
  "unicode_IsSpace r =
     (if 0 \<le> r \<and> r \<le> 0xFF then
        r = 0x09 \<or> r = 0x0A \<or> r = 0x0B \<or> r = 0x0C \<or> r = 0x0D \<or> r = 0x20 \<or> r = 0x85 \<or> r = 0xA0
      else
        r = 0x1680 \<or> (0x2000 \<le> r \<and> r \<le> 0x200A) \<or> r = 0x2028 \<or> r = 0x2029 \<or>
        r = 0x202F \<or> r = 0x205F \<or> r = 0x3000)"

text \<open>
  Both loops keep the start of the current field; here the field read so far is \<open>cur\<close>,
  and \<open>open\<close> tells whether a field has been started.
\<close>

fun fields_ascii :: "bytes \<Rightarrow> bool \<Rightarrow> bytes \<Rightarrow> bytes list" where
  "fields_ascii cur open [] = (if open then [cur] else [])"
| "fields_ascii cur open (c # s) =
     (if asciiSpace c then (if open then cur # fields_ascii [] False s else fields_ascii [] False s)
      else fields_ascii (cur @ [c]) True s)"

fun fields_runes :: "(rune \<Rightarrow> bool) \<Rightarrow> bytes \<Rightarrow> bool \<Rightarrow> (rune \<times> bytes) list \<Rightarrow> bytes list" where
  "fields_runes f cur open [] = (if open then [cur] else [])"
| "fields_runes f cur open ((r, enc) # rs) =
     (if f r then (if open then cur # fields_runes f [] False rs else fields_runes f [] False rs)
      else fields_runes f (cur @ enc) True rs)"

definition strings_FieldsFunc :: "bytes \<Rightarrow> (rune \<Rightarrow> bool) \<Rightarrow> bytes list" where
  "strings_FieldsFunc s f = fields_runes f [] False (runes_of s)"

definition strings_Fields :: "bytes \<Rightarrow> bytes list" where
  "strings_Fields s =
     (if list_ex (\<lambda>c. c \<ge> RuneSelf) s then strings_FieldsFunc s unicode_IsSpace
      else fields_ascii [] False s)"

section \<open>strconv.ParseUint\<close>

text \<open>
  \<^verbatim>\<open>strconv.ParseUint(s, base, bitSize)\<close> for a base from 2 to 36 and a bit size from 1
  to 64, as the program calls it (base 16, bit sizes 32 and 16): no prefix and no
  underscore is accepted. It returns the value and the error; the value is 0 with a
  syntax error and the largest value of the bit size with a range error.
\<close>

definition lower :: "byte \<Rightarrow> byte" where
  "lower c = c OR (0x78 - 0x58)"

definition digit_val :: "byte \<Rightarrow> byte option" where
  "digit_val c =
     (if 0x30 \<le> c \<and> c \<le> 0x39 then Some (c - 0x30)
      else if 0x61 \<le> lower c \<and> lower c \<le> 0x7A then Some (lower c - 0x61 + 10)
      else None)"

definition syntaxError :: "string \<Rightarrow> bytes \<Rightarrow> error" where
  "syntaxError fn str = NumError (B fn) str ErrSyntax"

definition rangeError :: "string \<Rightarrow> bytes \<Rightarrow> error" where
  "rangeError fn str = NumError (B fn) str ErrRange"

fun parseUint_loop ::
  "bytes \<Rightarrow> 64 word \<Rightarrow> 64 word \<Rightarrow> 64 word \<Rightarrow> 64 word \<Rightarrow> bytes \<Rightarrow> 64 word \<times> error option" where
  "parseUint_loop s0 base cutoff maxVal n [] = (n, None)"
| "parseUint_loop s0 base cutoff maxVal n (c # cs) =
     (case digit_val c of
        None \<Rightarrow> (0, Some (syntaxError ''ParseUint'' s0))
      | Some d \<Rightarrow>
          if d \<ge> ucast base then (0, Some (syntaxError ''ParseUint'' s0))
          else if n \<ge> cutoff then (maxVal, Some (rangeError ''ParseUint'' s0))
          else
            let n' = n * base; n1 = n' + ucast d in
            if n1 < n' \<or> n1 > maxVal then (maxVal, Some (rangeError ''ParseUint'' s0))
            else parseUint_loop s0 base cutoff maxVal n1 cs)"

definition strconv_ParseUint :: "bytes \<Rightarrow> nat \<Rightarrow> nat \<Rightarrow> 64 word \<times> error option" where
  "strconv_ParseUint s base bitSize =
     (if s = [] then (0, Some (syntaxError ''ParseUint'' s))
      else
        let cutoff = (- 1) div (of_nat base) + 1;
            maxVal = push_bit bitSize 1 - 1
        in parseUint_loop s (of_nat base) cutoff maxVal 0 s)"

section \<open>fmt: the verbs \<^verbatim>\<open>%.8X\<close>, \<^verbatim>\<open>%.4X\<close> and \<^verbatim>\<open>%g\<close>\<close>

definition udigits :: bytes where
  "udigits = B ''0123456789ABCDEFX''"

text \<open>
  \<^verbatim>\<open>fmtInteger\<close> in base 16 writes the digits from the right while \<^verbatim>\<open>u >= 16\<close>, then the
  last digit, then zeros up to the precision.
\<close>

function hex_digits_rev :: "64 word \<Rightarrow> bytes" where
  "hex_digits_rev u =
     (if u \<ge> 16 then udigits ! unat (u AND 0xF) # hex_digits_rev (drop_bit 4 u)
      else [udigits ! unat u])"
  by pat_completeness auto
termination
proof (relation "measure unat")
  show "wf (measure unat)" by simp
next
  fix u :: "64 word"
  assume "16 \<le> u"
  then have "16 \<le> unat u" by (simp add: word_le_nat_alt)
  then have "unat u div 16 < unat u" by simp
  then show "(drop_bit 4 u, u) \<in> measure unat"
    by (simp add: drop_bit_eq_div unat_div)
qed

declare hex_digits_rev.simps [simp del]

definition fmt_X :: "nat \<Rightarrow> 64 word \<Rightarrow> bytes" where
  "fmt_X prec u =
     (let ds = rev (hex_digits_rev u) in replicate (prec - length ds) 0x30 @ ds)"

text \<open>
  \<open>nibble_digit u i\<close> is the digit that \<^verbatim>\<open>fmtInteger\<close> writes for the \<open>i\<close>-th group of four
  bits of \<open>u\<close>, counted from the right.
\<close>

definition nibble_digit :: "64 word \<Rightarrow> nat \<Rightarrow> byte" where
  "nibble_digit u i = udigits ! unat (drop_bit (4 * i) u AND 0xF)"

text \<open>
  Floating-point values are given by their IEEE-754 bit patterns, so that
  \<^verbatim>\<open>math.Float32frombits\<close> and \<^verbatim>\<open>math.Float32bits\<close> are the identity. What the libraries
  compute beyond the cases written out below is a parameter of the model:
  \<^item> \<open>atof32_other\<close>: \<^verbatim>\<open>strconv.ParseFloat(s, 32)\<close> on a string that is neither a special
    value nor a plain decimal literal (a hexadecimal literal, a literal with underscores,
    a malformed string), as the \<^verbatim>\<open>float32\<close> it denotes and the error;
  \<^item> \<open>format_finite32\<close>: the shortest \<^verbatim>\<open>%g\<close> text of a finite \<^verbatim>\<open>float32\<close>;
  \<^item> \<open>f16_Fromfloat32\<close>, \<open>f16_Float32\<close>: the conversions of the float16 package.
\<close>

record float_lib =
  atof32_other :: "bytes \<Rightarrow> 32 word \<times> error option"
  format_finite32 :: "32 word \<Rightarrow> bytes"
  f16_Fromfloat32 :: "32 word \<Rightarrow> 16 word"
  f16_Float32 :: "16 word \<Rightarrow> 32 word"

definition f32_exponent :: "32 word \<Rightarrow> 32 word" where
  "f32_exponent b = drop_bit 23 b AND 0xFF"

definition f32_mantissa :: "32 word \<Rightarrow> 32 word" where
  "f32_mantissa b = b AND 0x7FFFFF"

definition f32_isNaN :: "32 word \<Rightarrow> bool" where
  "f32_isNaN b = (f32_exponent b = 0xFF \<and> f32_mantissa b \<noteq> 0)"

text \<open>
  \<^verbatim>\<open>%g\<close> of a \<^verbatim>\<open>float32\<close>: \<^verbatim>\<open>strconv\<close> writes \<^verbatim>\<open>NaN\<close>, \<^verbatim>\<open>+Inf\<close> or \<^verbatim>\<open>-Inf\<close> when the
  exponent is all ones, and \<^verbatim>\<open>fmt\<close> keeps these texts.
\<close>

definition fmt_g32 :: "float_lib \<Rightarrow> 32 word \<Rightarrow> bytes" where
  "fmt_g32 lib b =
     (if f32_exponent b = 0xFF then
        (if f32_mantissa b \<noteq> 0 then B ''NaN''
         else if bit b 31 then B ''-Inf'' else B ''+Inf'')
      else format_finite32 lib b)"

text \<open>
  \<^verbatim>\<open>special\<close> of \<^verbatim>\<open>strconv\<close>: an optional sign followed by \<^verbatim>\<open>inf\<close> or \<^verbatim>\<open>infinity\<close>, or
  \<^verbatim>\<open>nan\<close>, in any case; it returns the value and the number of bytes read. As a
  \<^verbatim>\<open>float32\<close>, \<^verbatim>\<open>math.NaN()\<close> has the bits 0x7FC00000.
\<close>

fun commonPrefixLenIgnoreCase :: "bytes \<Rightarrow> bytes \<Rightarrow> nat" where
  "commonPrefixLenIgnoreCase (c # s) (p # prefix) =
     (let c' = (if 0x41 \<le> c \<and> c \<le> 0x5A then c + (0x61 - 0x41) else c)
      in if c' \<noteq> p then 0 else Suc (commonPrefixLenIgnoreCase s prefix))"
| "commonPrefixLenIgnoreCase s prefix = 0"

definition special_inf :: "bool \<Rightarrow> nat \<Rightarrow> bytes \<Rightarrow> (32 word \<times> nat) option" where
  "special_inf neg nsign s =
     (let n = commonPrefixLenIgnoreCase s (B ''infinity'');
          n = (if 3 < n \<and> n < 8 then 3 else n)
      in if n = 3 \<or> n = 8 then Some (if neg then 0xFF800000 else 0x7F800000, nsign + n)
         else None)"

definition special :: "bytes \<Rightarrow> (32 word \<times> nat) option" where
  "special s =
     (case s of
        [] \<Rightarrow> None
      | c # s' \<Rightarrow>
          if c = 0x2B \<or> c = 0x2D then special_inf (c = 0x2D) 1 s'
          else if c = 0x69 \<or> c = 0x49 then special_inf False 0 s
          else if c = 0x6E \<or> c = 0x4E then
            (if commonPrefixLenIgnoreCase s (B ''nan'') = 3 then Some (0x7FC00000, 3) else None)
          else None)"

text \<open>
  Plain decimal literals: an optional sign, digits with an optional point (at least one
  digit), and an optional exponent \<^verbatim>\<open>e\<close> or \<^verbatim>\<open>E\<close> with an optional sign and one to four
  digits. \<open>read_decimal\<close> returns the sign, the digits as a number and the power of ten.
\<close>

definition is_digit :: "byte \<Rightarrow> bool" where
  "is_digit c = (0x30 \<le> c \<and> c \<le> 0x39)"

definition digits_val :: "bytes \<Rightarrow> nat" where
  "digits_val ds = foldl (\<lambda>n c. n * 10 + unat (c - 0x30)) 0 ds"

definition read_sign :: "bytes \<Rightarrow> bool \<times> bytes" where
  "read_sign s =
     (case s of
        [] \<Rightarrow> (False, [])
      | c # r \<Rightarrow> if c = 0x2B then (False, r) else if c = 0x2D then (True, r) else (False, s))"

definition read_decimal :: "bytes \<Rightarrow> (bool \<times> nat \<times> int) option" where
  "read_decimal s =
     (let (neg, s1) = read_sign s;
          ip = takeWhile is_digit s1;
          s2 = dropWhile is_digit s1;
          (fp, s3) = (case s2 of
                        [] \<Rightarrow> ([], [])
                      | c # r \<Rightarrow> if c = 0x2E then (takeWhile is_digit r, dropWhile is_digit r)
                                 else ([], s2))
      in if ip = [] \<and> fp = [] then None
         else
           (case s3 of
              [] \<Rightarrow> Some (neg, digits_val (ip @ fp), - int (length fp))
            | c # r \<Rightarrow>
                if c = 0x65 \<or> c = 0x45 then
                  (let (eneg, ed) = read_sign r
                   in if ed \<noteq> [] \<and> list_all is_digit ed \<and> length ed \<le> 4
                      then Some (neg, digits_val (ip @ fp),
                                 (if eneg then - int (digits_val ed) else int (digits_val ed))
                                   - int (length fp))
                      else None)
                else None))"

text \<open>
  Modelled from the documentation of \<^verbatim>\<open>strconv.ParseFloat\<close> (Go standard library, not
  part of the repository): on a well-formed literal it returns the nearest
  floating-point number, rounded with IEEE-754 unbiased rounding (ties to even); a value
  too large for the type gives an infinity and a range error. \<open>round32 n d\<close> is the
  \<^verbatim>\<open>float32\<close> nearest to the positive fraction \<open>n / d\<close>, without the sign bit: with
  \<open>2 ^ e \<le> n / d < 2 ^ (e + 1)\<close> and the exponent kept at least -126 (below that the numbers
  are subnormal), the significand is \<open>n / d\<close> scaled by \<open>2 ^ (23 - e)\<close> and rounded, and the
  bits are the biased exponent and the significand added up.
\<close>

function bitlen :: "nat \<Rightarrow> nat" where
  "bitlen n = (if n = 0 then 0 else Suc (bitlen (n div 2)))"
  by pat_completeness auto
termination
  by (relation "measure id") auto

declare bitlen.simps [simp del]

definition floor_log2 :: "nat \<Rightarrow> nat \<Rightarrow> int" where
  "floor_log2 n d =
     (let bl = int (bitlen n) - int (bitlen d)
      in if n * 2 ^ nat (- bl) < d * 2 ^ nat bl then bl - 1 else bl)"

definition round32 :: "nat \<Rightarrow> nat \<Rightarrow> nat" where
  "round32 n d =
     (let e = max (floor_log2 n d) (- 126);
          k = 23 - e;
          N = n * 2 ^ nat k;
          D = d * 2 ^ nat (- k);
          m = N div D;
          r = N mod D;
          m' = (if 2 * r > D \<or> (2 * r = D \<and> odd m) then m + 1 else m)
      in nat (e + 126) * 2 ^ 23 + m')"

definition round_decimal32 :: "bytes \<Rightarrow> bool \<Rightarrow> nat \<Rightarrow> int \<Rightarrow> 32 word \<times> error option" where
  "round_decimal32 s neg mant e10 =
     (let sign = (if neg then 0x80000000 else 0) :: 32 word
      in if mant = 0 then (sign, None)
         else
           let bits = round32 (mant * 10 ^ nat e10) (10 ^ nat (- e10))
           in if bits \<ge> 0x7F800000 then (sign OR 0x7F800000, Some (rangeError ''ParseFloat'' s))
              else (sign OR of_nat bits, None))"

text \<open>
  \<^verbatim>\<open>strconv.ParseFloat(s, 32)\<close> followed by the conversion \<^verbatim>\<open>float32(.)\<close> of the program,
  which is exact on the result.
\<close>

definition strconv_ParseFloat32 :: "float_lib \<Rightarrow> bytes \<Rightarrow> 32 word \<times> error option" where
  "strconv_ParseFloat32 lib s =
     (case special s of
        Some (f, n) \<Rightarrow> if n \<noteq> length s then (0, Some (syntaxError ''ParseFloat'' s)) else (f, None)
      | None \<Rightarrow>
          (case read_decimal s of
             Some (neg, mant, e10) \<Rightarrow> round_decimal32 s neg mant e10
           | None \<Rightarrow> atof32_other lib s))"

section \<open>The float32-hex and float16-hex transforms\<close>

text \<open>
  Each function loops over the words and appends to \<^verbatim>\<open>dst\<close>; a word that does not parse
  ends the function with \<^verbatim>\<open>nil\<close> bytes and the error.
\<close>

fun float32hexDec_loop :: "float_lib \<Rightarrow> bytes \<Rightarrow> bytes list \<Rightarrow> result" where
  "float32hexDec_loop lib dst [] = (dst, None)"
| "float32hexDec_loop lib dst (word # words) =
     (case strconv_ParseUint word 16 32 of
        (s, Some err) \<Rightarrow> ([], Some err)
      | (s, None) \<Rightarrow>
          let f = (ucast s :: 32 word)
          in float32hexDec_loop lib (dst @ fmt_g32 lib f @ B '' '') words)"

definition float32hexDec :: "float_lib \<Rightarrow> modeFunc" where
  "float32hexDec lib src = float32hexDec_loop lib [] (strings_Fields src)"

fun float32hexEnc_loop :: "float_lib \<Rightarrow> bytes \<Rightarrow> bytes list \<Rightarrow> result" where
  "float32hexEnc_loop lib dst [] = (dst, None)"
| "float32hexEnc_loop lib dst (word # words) =
     (case strconv_ParseFloat32 lib word of
        (s, Some err) \<Rightarrow> ([], Some err)
      | (s, None) \<Rightarrow>
          let x = s
          in float32hexEnc_loop lib (dst @ fmt_X 8 (ucast x) @ B '' '') words)"

definition float32hexEnc :: "float_lib \<Rightarrow> modeFunc" where
  "float32hexEnc lib src = float32hexEnc_loop lib [] (strings_Fields src)"

fun float16hexDec_loop :: "float_lib \<Rightarrow> bytes \<Rightarrow> bytes list \<Rightarrow> result" where
  "float16hexDec_loop lib dst [] = (dst, None)"
| "float16hexDec_loop lib dst (word # words) =
     (case strconv_ParseUint word 16 16 of
        (s, Some err) \<Rightarrow> ([], Some err)
      | (s, None) \<Rightarrow>
          let f = (ucast s :: 16 word)
          in float16hexDec_loop lib (dst @ fmt_g32 lib (f16_Float32 lib f) @ B '' '') words)"

definition float16hexDec :: "float_lib \<Rightarrow> modeFunc" where
  "float16hexDec lib src = float16hexDec_loop lib [] (strings_Fields src)"

fun float16hexEnc_loop :: "float_lib \<Rightarrow> bytes \<Rightarrow> bytes list \<Rightarrow> result" where
  "float16hexEnc_loop lib dst [] = (dst, None)"
| "float16hexEnc_loop lib dst (word # words) =
     (case strconv_ParseFloat32 lib word of
        (f_64, Some err) \<Rightarrow> ([], Some err)
      | (f_64, None) \<Rightarrow>
          let f_32 = f_64;
              f_16 = f16_Fromfloat32 lib f_32;
              x = f_16
          in float16hexEnc_loop lib (dst @ fmt_X 4 (ucast x) @ B '' '') words)"

definition float16hexEnc :: "float_lib \<Rightarrow> modeFunc" where
  "float16hexEnc lib src = float16hexEnc_loop lib [] (strings_Fields src)"

section \<open>exec\<close>

text \<open>
  \<^verbatim>\<open>exec\<close> on the bytes of standard input: the bytes written to standard output and the
  error. Nothing is written when the transform returns an error. (Failures of reading and
  writing are left out.)
\<close>

definition strip_input :: "bool \<Rightarrow> bytes \<Rightarrow> bytes" where
  "strip_input stripNewline b =
     (if stripNewline \<and> length b > 0 \<and> b ! (length b - 1) = 0x0A
      then take (length b - 1) b else b)"

definition exec :: "modeFunc \<Rightarrow> bool \<Rightarrow> bool \<Rightarrow> bytes \<Rightarrow> bytes \<times> error option" where
  "exec f stripNewline emitNewline stdin =
     (let b = stdin;
          b = strip_input stripNewline b;
          (b, err) = f b
      in if err \<noteq> None then ([], err)
         else (b @ (if emitNewline then B ''\<newline>'' else []), None))"

section \<open>strconv.QuoteToASCII\<close>

text \<open>
  \<^verbatim>\<open>strconv.QuoteToASCII(s)\<close> is \<^verbatim>\<open>appendQuotedWith(buf, s, '"', true, false)\<close> on an empty
  buffer. The functions are written for these flags (\<^verbatim>\<open>ASCIIonly\<close> set, \<^verbatim>\<open>graphicOnly\<close>
  not set), where \<^verbatim>\<open>IsPrint\<close> is only asked about runes below \<^verbatim>\<open>utf8.RuneSelf\<close>, which its
  Latin-1 test answers without the tables.
\<close>

definition lowerhex :: bytes where
  "lowerhex = B ''0123456789abcdef''"

definition strconv_IsPrint_latin1 :: "rune \<Rightarrow> bool" where
  "strconv_IsPrint_latin1 r =
     (if 0x20 \<le> r \<and> r \<le> 0x7E then True
      else if 0xA1 \<le> r \<and> r \<le> 0xFF then r \<noteq> 0xAD
      else False)"

text \<open>The loop \<^verbatim>\<open>for s := n; s >= 0; s -= 4\<close> appending \<^verbatim>\<open>lowerhex[r>>uint(s)&0xF]\<close>.\<close>

definition rune_hex :: "rune \<Rightarrow> nat list \<Rightarrow> bytes" where
  "rune_hex r shifts = map (\<lambda>s. lowerhex ! nat (drop_bit s r AND 0xF)) shifts"

definition appendEscapedRune :: "bytes \<Rightarrow> rune \<Rightarrow> byte \<Rightarrow> bytes" where
  "appendEscapedRune buf r quote =
     (if r = uint quote \<or> r = 0x5C then buf @ [0x5C, word_of_int r]
      else if r < uint RuneSelf \<and> strconv_IsPrint_latin1 r then buf @ [word_of_int r]
      else if r = 0x07 then buf @ [0x5C, 0x61]
      else if r = 0x08 then buf @ [0x5C, 0x62]
      else if r = 0x0C then buf @ [0x5C, 0x66]
      else if r = 0x0A then buf @ [0x5C, 0x6E]
      else if r = 0x0D then buf @ [0x5C, 0x72]
      else if r = 0x09 then buf @ [0x5C, 0x74]
      else if r = 0x0B then buf @ [0x5C, 0x76]
      else if r < 0x20 \<or> r = 0x7F then
        buf @ [0x5C, 0x78] @
          [lowerhex ! unat (drop_bit 4 (word_of_int r :: byte)),
           lowerhex ! unat ((word_of_int r :: byte) AND 0xF)]
      else if \<not> utf8_ValidRune r then buf @ [0x5C, 0x75] @ rune_hex 0xFFFD [12, 8, 4, 0]
      else if r < 0x10000 then buf @ [0x5C, 0x75] @ rune_hex r [12, 8, 4, 0]
      else buf @ [0x5C, 0x55] @ rune_hex r [28, 24, 20, 16, 12, 8, 4, 0])"

text \<open>
  The loop of \<^verbatim>\<open>appendQuotedWith\<close>: a byte that is not the start of a valid encoding is
  written as \<^verbatim>\<open>\x\<close> and its two hexadecimal digits, every other rune goes through
  \<^verbatim>\<open>appendEscapedRune\<close>.
\<close>

definition next_rune :: "bytes \<Rightarrow> rune \<times> nat" where
  "next_rune s = (if hd s \<ge> RuneSelf then utf8_DecodeRune s else (uint (hd s), 1))"

lemma next_rune_pos: "(r, w) = next_rune s \<Longrightarrow> s \<noteq> [] \<Longrightarrow> 0 < w"
  by (auto simp: next_rune_def dest: utf8_DecodeRune_pos split: if_splits)

function appendQuoted_loop :: "bytes \<Rightarrow> bytes \<Rightarrow> byte \<Rightarrow> bytes" where
  "appendQuoted_loop buf s quote =
     (if s = [] then buf
      else
        (case next_rune s of
           (r, width) \<Rightarrow>
             if width = 1 \<and> r = RuneError then
               appendQuoted_loop
                 (buf @ [0x5C, 0x78] @
                    [lowerhex ! unat (drop_bit 4 (hd s)), lowerhex ! unat (hd s AND 0xF)])
                 (drop width s) quote
             else appendQuoted_loop (appendEscapedRune buf r quote) (drop width s) quote))"
  by pat_completeness auto
termination
  by (relation "measure (\<lambda>(buf, s, quote). length s)") (auto dest: next_rune_pos)

declare appendQuoted_loop.simps [simp del]

definition appendQuotedWith :: "bytes \<Rightarrow> bytes \<Rightarrow> byte \<Rightarrow> bytes" where
  "appendQuotedWith buf s quote = appendQuoted_loop (buf @ [quote]) s quote @ [quote]"

definition strconv_QuoteToASCII :: "bytes \<Rightarrow> bytes" where
  "strconv_QuoteToASCII s = appendQuotedWith [] s 0x22"

definition goEnc :: modeFunc where
  "goEnc src = (strconv_QuoteToASCII src, None)"

section \<open>The remaining encoders\<close>

text \<open>
  The texts produced by these library routines are parameters of the model: \<^verbatim>\<open>hex.Dump\<close>,
  the quoted text that \<^verbatim>\<open>encoding/json\<close> writes for a string, \<^verbatim>\<open>html.EscapeString\<close>,
  \<^verbatim>\<open>url.PathEscape\<close>, \<^verbatim>\<open>url.QueryEscape\<close>, the table behind \<^verbatim>\<open>unicode.IsPrint\<close> and the
  names of \<^verbatim>\<open>runenames.Name\<close>. All of them return a string and nothing else.
\<close>

record text_lib =
  hex_Dump :: "bytes \<Rightarrow> bytes"
  json_string :: "bytes \<Rightarrow> bytes"
  html_EscapeString :: "bytes \<Rightarrow> bytes"
  url_PathEscape :: "bytes \<Rightarrow> bytes"
  url_QueryEscape :: "bytes \<Rightarrow> bytes"
  unicode_IsPrint :: "rune \<Rightarrow> bool"
  runenames_Name :: "rune \<Rightarrow> bytes"

definition hexExtEnc :: "text_lib \<Rightarrow> modeFunc" where
  "hexExtEnc lib src = (hex_Dump lib src, None)"

text \<open>
  \<^verbatim>\<open>json.Marshal\<close> on a pointer to a string: the encoder follows the pointer and writes the
  quoted text of the string. \<^verbatim>\<open>Marshal\<close> returns an error for a value of an unsupported
  type, an unsupported or cyclic value, or a failing \<^verbatim>\<open>Marshaler\<close>; a string is none of
  these.
\<close>

definition json_Marshal_string :: "text_lib \<Rightarrow> bytes \<Rightarrow> bytes \<times> error option" where
  "json_Marshal_string lib s = (json_string lib s, None)"

definition jsonEnc :: "text_lib \<Rightarrow> modeFunc" where
  "jsonEnc lib src =
     (let s = src;
          (b, err) = json_Marshal_string lib s
      in (b, err))"

definition htmlEnc :: "text_lib \<Rightarrow> modeFunc" where
  "htmlEnc lib src = (html_EscapeString lib src, None)"

definition urlPathEnc :: "text_lib \<Rightarrow> modeFunc" where
  "urlPathEnc lib src = (url_PathEscape lib src, None)"

definition urlQueryEnc :: "text_lib \<Rightarrow> modeFunc" where
  "urlQueryEnc lib src = (url_QueryEscape lib src, None)"

text \<open>
  \<^verbatim>\<open>%U\<close> writes \<^verbatim>\<open>U+\<close> and the upper-case hexadecimal digits of the rune, at least four.
\<close>

definition fmt_U :: "rune \<Rightarrow> bytes" where
  "fmt_U r = B ''U+'' @ fmt_X 4 (word_of_int r)"

fun codepointEnc_loop :: "text_lib \<Rightarrow> bytes \<Rightarrow> nat \<Rightarrow> rune list \<Rightarrow> bytes" where
  "codepointEnc_loop lib buf i [] = buf"
| "codepointEnc_loop lib buf i (r # runes) =
     (let buf = (if i > 0 then buf @ B ''\<newline>'' else buf);
          s = (if unicode_IsPrint lib r then utf8_AppendRune r else [0xEF, 0xBF, 0xBD])
      in codepointEnc_loop lib
           (buf @ fmt_U r @ [0x09] @ s @ [0x09] @ runenames_Name lib r) (Suc i) runes)"

definition codepointEnc :: "text_lib \<Rightarrow> modeFunc" where
  "codepointEnc lib src =
     (let runes = map fst (runes_of src)
      in (codepointEnc_loop lib [] 0 runes, None))"

section \<open>Properties of rot13\<close>

lemma unat_rotate:
  fixes b base :: byte
  assumes "unat base \<le> unat b" "unat b \<le> unat base + 25" "unat base \<le> 200"
  shows "unat (base + (b - base + 13) mod 26) = unat base + (unat b - unat base + 13) mod 26"
proof -
  define x where "x = b - base"
  have 1: "unat x = unat b - unat base"
    using assms by (simp add: x_def unat_sub word_le_nat_alt)
  have "unat x + 13 < 256" using assms 1 by simp
  then have 2: "unat (x + 13) = unat x + 13"
    by (simp add: unat_word_ariths)
  have 3: "unat ((x + 13) mod 26) = (unat x + 13) mod 26"
    using 2 by (simp add: unat_mod)
  have "(unat x + 13) mod 26 < 26" by simp
  then have "unat base + unat ((x + 13) mod 26) < 256" using assms 3 by simp
  then have "unat (base + (x + 13) mod 26) = unat base + (unat x + 13) mod 26"
    using 3 by (simp add: unat_word_ariths)
  then show ?thesis using 1 unfolding x_def by simp
qed

lemma unat_rot13_byte:
  "unat (rot13_byte b) =
     (if 65 \<le> unat b \<and> unat b \<le> 90 then 65 + (unat b - 65 + 13) mod 26
      else if 97 \<le> unat b \<and> unat b \<le> 122 then 97 + (unat b - 97 + 13) mod 26
      else unat b)"
  using unat_rotate[of "0x41" b] unat_rotate[of "0x61" b]
  by (simp add: rot13_byte_def Let_def word_le_nat_alt)

lemma rot_twice: "m < 26 \<Longrightarrow> ((m + 13) mod 26 + 13) mod 26 = (m::nat)"
  by (simp add: mod_add_left_eq)

lemma rot13_byte_involution: "rot13_byte (rot13_byte b) = b"
proof -
  let ?n = "unat b"
  have "unat (rot13_byte (rot13_byte b)) = ?n"
  proof -
    consider (up) "65 \<le> ?n" "?n \<le> 90" | (lo) "97 \<le> ?n" "?n \<le> 122"
      | (other) "\<not> (65 \<le> ?n \<and> ?n \<le> 90) \<and> \<not> (97 \<le> ?n \<and> ?n \<le> 122)"
      by blast
    then show ?thesis
    proof cases
      case up
      define m where "m = ?n - 65"
      have m: "m < 26" "?n = 65 + m" using up by (simp_all add: m_def)
      have r: "unat (rot13_byte b) = 65 + (m + 13) mod 26"
        using up by (simp add: unat_rot13_byte m_def)
      have "(m + 13) mod 26 < 26" by simp
      then have "unat (rot13_byte (rot13_byte b)) = 65 + ((m + 13) mod 26 + 13) mod 26"
        by (simp add: unat_rot13_byte[of "rot13_byte b"] r)
      then show ?thesis using m by (simp add: rot_twice)
    next
      case lo
      define m where "m = ?n - 97"
      have m: "m < 26" "?n = 97 + m" using lo by (simp_all add: m_def)
      have r: "unat (rot13_byte b) = 97 + (m + 13) mod 26"
        using lo by (simp add: unat_rot13_byte m_def)
      have "(m + 13) mod 26 < 26" by simp
      then have "unat (rot13_byte (rot13_byte b)) = 97 + ((m + 13) mod 26 + 13) mod 26"
        by (simp add: unat_rot13_byte[of "rot13_byte b"] r)
      then show ?thesis using m by (simp add: rot_twice)
    next
      case other
      then have "unat (rot13_byte b) = ?n" by (simp only: unat_rot13_byte if_False)
      then have "rot13_byte b = b" by (simp add: word_unat_eq_iff)
      then show ?thesis by simp
    qed
  qed
  then show ?thesis by (simp add: word_unat_eq_iff)
qed

text \<open>The in-place loop started at index \<open>i\<close> rotates exactly the bytes from \<open>i\<close> on.\<close>

lemma rot13_loop_eq:
  "i \<le> length arr \<Longrightarrow> rot13_loop arr i = take i arr @ map rot13_byte (drop i arr)"
proof (induction arr i rule: rot13_loop.induct)
  case (1 arr i)
  show ?case
  proof (cases "i < length arr")
    case True
    let ?arr' = "arr[i := rot13_byte (arr ! i)]"
    have "rot13_loop arr i = rot13_loop ?arr' (Suc i)"
      using True by (subst rot13_loop.simps) simp
    also have "\<dots> = take (Suc i) ?arr' @ map rot13_byte (drop (Suc i) ?arr')"
      using 1 True by simp
    also have "\<dots> = take i arr @ map rot13_byte (drop i arr)"
      using True by (simp add: take_Suc_conv_app_nth Cons_nth_drop_Suc[symmetric])
    finally show ?thesis .
  next
    case False
    with 1 show ?thesis by (subst rot13_loop.simps) simp
  qed
qed

lemma rot13_map: "rot13 src = (map rot13_byte src, None)"
  by (simp add: rot13_def rot13_loop_eq)

text \<open>
  C3: \<^verbatim>\<open>rot13(rot13(x)) == x\<close> for every byte sequence, with a nil error both times; the
  output has the length of the input and, position by position, an upper-case ASCII letter
  (65..90) is moved 13 places around the upper-case alphabet, a lower-case ASCII letter
  (97..122) 13 places around the lower-case alphabet, and every other byte is the input
  byte; the registry entry of mode \<^verbatim>\<open>rot13\<close> holds the one function \<^verbatim>\<open>rot13\<close> as decoder
  and as encoder.
\<close>

theorem rot13_self_inverse_letters_only:
  "rot13 (fst (rot13 x)) = (x, None)
   \<and> snd (rot13 x) = None
   \<and> length (fst (rot13 x)) = length x
   \<and> (\<forall>i < length x.
        unat (fst (rot13 x) ! i) =
          (if 65 \<le> unat (x ! i) \<and> unat (x ! i) \<le> 90
             then 65 + (unat (x ! i) - 65 + 13) mod 26
           else if 97 \<le> unat (x ! i) \<and> unat (x ! i) \<le> 122
             then 97 + (unat (x ! i) - 97 + 13) mod 26
           else unat (x ! i)))
   \<and> (\<forall>i < length x. \<not> (65 \<le> unat (x ! i) \<and> unat (x ! i) \<le> 90) \<and>
                       \<not> (97 \<le> unat (x ! i) \<and> unat (x ! i) \<le> 122)
          \<longrightarrow> fst (rot13 x) ! i = x ! i)
   \<and> lookup_mode ''rot13'' = Some \<lparr>decoder = Some F_rot13, encoder = Some F_rot13\<rparr>"
proof -
  have inv: "map (rot13_byte \<circ> rot13_byte) x = x"
    by (simp add: map_idI rot13_byte_involution)
  have same: "fst (rot13 x) ! i = x ! i"
    if "i < length x" "\<not> (65 \<le> unat (x ! i) \<and> unat (x ! i) \<le> 90)"
       "\<not> (97 \<le> unat (x ! i) \<and> unat (x ! i) \<le> 122)" for i
  proof -
    have "unat (rot13_byte (x ! i)) = unat (x ! i)"
      using that(2,3) by (simp only: unat_rot13_byte if_False)
    then show ?thesis using that(1) by (simp add: rot13_map word_unat_eq_iff)
  qed
  have reg: "lookup_mode ''rot13'' = Some \<lparr>decoder = Some F_rot13, encoder = Some F_rot13\<rparr>"
    by (simp add: lookup_mode_def modes_def)
  show ?thesis
    using inv same reg by (simp add: rot13_map unat_rot13_byte)
qed

theorem rot13_self_inverse_letters_only_witness:
  "rot13 (fst (rot13 (B ''Hello, World!''))) = (B ''Hello, World!'', None)
   \<and> fst (rot13 (B ''Hello, World!'')) = B ''Uryyb, Jbeyq!''"
proof -
  have "fst (rot13 (B ''Hello, World!'')) = B ''Uryyb, Jbeyq!''"
    by (simp add: rot13_map B_def rot13_byte_def)
  then show ?thesis
    using rot13_self_inverse_letters_only [of "B ''Hello, World!''"] by simp
qed

section \<open>Properties of the hex transform\<close>

lemma and_0x0F: "(x::byte) AND 0x0F = take_bit 4 x"
  by (simp add: take_bit_eq_mask mask_eq_exp_minus_1)

lemma byte_eqI:
  fixes a b :: byte
  assumes "bit a 0 = bit b 0" "bit a 1 = bit b 1" "bit a 2 = bit b 2" "bit a 3 = bit b 3"
    "bit a 4 = bit b 4" "bit a 5 = bit b 5" "bit a 6 = bit b 6" "bit a 7 = bit b 7"
  shows "a = b"
proof (rule bit_word_eqI)
  fix n assume "n < LENGTH(8)"
  then have "n \<in> {0, 1, 2, 3, 4, 5, 6, 7}" by auto
  then show "bit a n = bit b n" using assms by auto
qed

lemma byte_bit_False: "8 \<le> n \<Longrightarrow> bit (w::byte) n = False"
  using bit_imp_le_length[of w n] by auto

lemma nibbles_join: "push_bit 4 (drop_bit 4 v) OR (v AND 0x0f) = (v::byte)"
  unfolding and_0x0F by (rule byte_eqI; simp add: bit_simps)

lemma unat_nibble_hi: "unat (drop_bit 4 (v::byte)) < 16"
proof -
  have "unat v < 256" using unsigned_less[of v, where 'a=nat] by simp
  then show ?thesis by (simp add: drop_bit_eq_div unat_div)
qed

lemma unat_nibble_lo: "unat ((v::byte) AND 0x0f) < 16"
  unfolding and_0x0F by (simp add: take_bit_eq_mod unat_mod)

lemma rev_hextable: "n < 16 \<Longrightarrow> reverseHexTable (hextable ! n) = of_nat n"
proof -
  assume "n < 16"
  then have "n \<in> {0, 1, 2, 3, 4, 5, 6, 7, 8, 9, 10, 11, 12, 13, 14, 15}" by simp arith
  then show ?thesis
    by (elim insertE emptyE; simp add: hextable_def B_def reverseHexTable_def)
qed

lemma rev_hextable_le: "n < 16 \<Longrightarrow> \<not> reverseHexTable (hextable ! n) > 0x0f"
proof -
  assume "n < 16"
  then have "n \<in> {0, 1, 2, 3, 4, 5, 6, 7, 8, 9, 10, 11, 12, 13, 14, 15}" by simp arith
  then show ?thesis
    by (elim insertE emptyE; simp add: hextable_def B_def reverseHexTable_def)
qed

lemma hex_Decode_Encode: "hex_Decode (hex_Encode x) = (x, None)"
proof (induction x)
  case Nil
  show ?case by simp
next
  case (Cons v x)
  have hi: "reverseHexTable (hextable ! unat (drop_bit 4 v)) = drop_bit 4 v"
    using rev_hextable[OF unat_nibble_hi[of v]] by simp
  have lo: "reverseHexTable (hextable ! unat (v AND 0x0f)) = v AND 0x0f"
    using rev_hextable[OF unat_nibble_lo[of v]] by simp
  have hi': "\<not> drop_bit 4 v > 0x0f"
    using rev_hextable_le[OF unat_nibble_hi[of v]] hi by simp
  have lo': "\<not> (v AND 0x0f) > 0x0f"
    using rev_hextable_le[OF unat_nibble_lo[of v]] lo by simp
  show ?case
    using Cons.IH hi' lo' by (simp add: hi lo nibbles_join del: drop_bit_word_numeral)
qed

lemma length_hex_Encode: "length (hex_Encode x) = hex_EncodedLen (length x)"
  by (induction x) (simp_all add: hex_EncodedLen_def)

lemma store_exact: "length out = length dst \<Longrightarrow> store dst out = out"
  by (simp add: store_def)

lemma take_store: "take (length out) (store dst out) = out"
  by (simp add: store_def)

lemma hexEnc_eq: "hexEnc src = (hex_Encode src, None)"
  by (simp add: hexEnc_def Let_def make_bytes_def store_exact length_hex_Encode)

lemma hexDec_eq: "hexDec src = hex_Decode src"
  by (simp add: hexDec_def Let_def take_store split: prod.splits)

lemma hex_roundtrip: "hexDec (fst (hexEnc x)) = (x, None)"
  by (simp add: hexEnc_eq hexDec_eq hex_Decode_Encode)

section \<open>Properties of the base64 and base32 transforms\<close>

lemma fill_decodeMap_other: "c \<notin> set cs \<Longrightarrow> fill_decodeMap cs i m c = m c"
  by (induction cs arbitrary: i m) auto

lemma fill_decodeMap_nth:
  "distinct cs \<Longrightarrow> k < length cs \<Longrightarrow> fill_decodeMap cs i m (cs ! k) = of_nat (i + k)"
proof (induction cs arbitrary: i m k)
  case Nil
  then show ?case by simp
next
  case (Cons c cs)
  show ?case
  proof (cases k)
    case 0
    with Cons.prems show ?thesis by (simp add: fill_decodeMap_other)
  next
    case (Suc k')
    with Cons show ?thesis by simp
  qed
qed

lemma newDecodeMap_nth:
  "distinct cs \<Longrightarrow> k < length cs \<Longrightarrow> newDecodeMap cs (cs ! k) = of_nat k"
  by (simp add: newDecodeMap_def fill_decodeMap_nth)

lemma newDecodeMap_other: "c \<notin> set cs \<Longrightarrow> newDecodeMap cs c = 0xFF"
  by (simp add: newDecodeMap_def fill_decodeMap_other)

lemma of_nat_neq_0xFF: "i < 255 \<Longrightarrow> (of_nat i :: byte) \<noteq> 0xFF"
proof
  assume "i < 255" and "(of_nat i :: byte) = 0xFF"
  then have "unat (of_nat i :: byte) = 255" by simp
  then show False using \<open>i < 255\<close> by (simp add: unat_of_nat)
qed

lemma dq_loop_done: "dq_loop enc 4 si dbuf rest = DQ_Convert si rest 4 dbuf None"
  by (cases rest) (simp_all add: dq_loop.simps)

lemma dq_loop_alpha:
  assumes "b64_wf enc" "j < 4" "i < 64" "dbuf' = dbuf[j := of_nat i]" "si' = si + 1" "j' = Suc j"
  shows "dq_loop enc j si dbuf (b64_encode enc ! i # rest) = dq_loop enc j' si' dbuf' rest"
proof -
  have "b64_decodeMap enc (b64_encode enc ! i) = of_nat i"
    using assms by (simp add: b64_decodeMap_def b64_wf_def newDecodeMap_nth)
  moreover have "(of_nat i :: byte) \<noteq> 0xFF" using assms(3) by (simp add: of_nat_neq_0xFF)
  ultimately show ?thesis using assms(2,4,5,6) by (simp add: Let_def dq_loop.simps)
qed

lemma and_0x3F: "(y::64 word) AND 0x3F = take_bit 6 y"
  by (simp add: take_bit_eq_mask mask_eq_exp_minus_1)

lemma unat_sextet: "unat ((y::64 word) AND 0x3F) < 64"
  by (simp add: and_0x3F take_bit_eq_mod unat_mod)

lemma b64_bits3:
  fixes s0 s1 s2 :: byte
  defines "val \<equiv> push_bit 16 (ucast s0) OR push_bit 8 (ucast s1) OR ucast s2 :: 64 word"
  defines "d0 \<equiv> ucast (drop_bit 18 val AND 0x3F) :: byte"
  defines "d1 \<equiv> ucast (drop_bit 12 val AND 0x3F) :: byte"
  defines "d2 \<equiv> ucast (drop_bit 6 val AND 0x3F) :: byte"
  defines "d3 \<equiv> ucast (val AND 0x3F) :: byte"
  defines "val2 \<equiv> push_bit 18 (ucast d0) OR push_bit 12 (ucast d1) OR push_bit 6 (ucast d2) OR ucast d3 :: 64 word"
  shows "ucast (drop_bit 16 val2) = s0" "ucast (drop_bit 8 val2) = s1" "ucast val2 = s2"
  unfolding val_def d0_def d1_def d2_def d3_def val2_def and_0x3F
  by (rule byte_eqI; simp add: bit_simps byte_bit_False)+

lemma b64_bits2:
  fixes s0 s1 :: byte
  defines "val \<equiv> push_bit 16 (ucast s0) OR push_bit 8 (ucast s1) :: 64 word"
  defines "d0 \<equiv> ucast (drop_bit 18 val AND 0x3F) :: byte"
  defines "d1 \<equiv> ucast (drop_bit 12 val AND 0x3F) :: byte"
  defines "d2 \<equiv> ucast (drop_bit 6 val AND 0x3F) :: byte"
  defines "val2 \<equiv> push_bit 18 (ucast d0) OR push_bit 12 (ucast d1) OR push_bit 6 (ucast d2) OR ucast (0::byte) :: 64 word"
  shows "ucast (drop_bit 16 val2) = s0" "ucast (drop_bit 8 val2) = s1"
  unfolding val_def d0_def d1_def d2_def val2_def and_0x3F
  by (rule byte_eqI; simp add: bit_simps byte_bit_False)+

lemma b64_bits1:
  fixes s0 :: byte
  defines "val \<equiv> push_bit 16 (ucast s0) :: 64 word"
  defines "d0 \<equiv> ucast (drop_bit 18 val AND 0x3F) :: byte"
  defines "d1 \<equiv> ucast (drop_bit 12 val AND 0x3F) :: byte"
  defines "val2 \<equiv> push_bit 18 (ucast d0) OR push_bit 12 (ucast d1) OR push_bit 6 (ucast (0::byte)) OR ucast (0::byte) :: 64 word"
  shows "ucast (drop_bit 16 val2) = s0"
  unfolding val_def d0_def d1_def val2_def and_0x3F
  by (rule byte_eqI; simp add: bit_simps byte_bit_False)+

lemma of_nat_unat_ucast: "(of_nat (unat (w :: 64 word)) :: byte) = ucast w"
  by simp


lemma skip_newlines_pad:
  "p \<noteq> 0x0A \<Longrightarrow> p \<noteq> 0x0D \<Longrightarrow> skip_newlines (p # rest) si = (p # rest, si)"
  by simp

lemma b64_Encode_3: "b64_Encode enc (s0 # s1 # s2 # src) = b64_Encode enc [s0, s1, s2] @ b64_Encode enc src"
  by (simp add: Let_def)

lemma decodeQuantum_3:
  assumes wf: "b64_wf enc"
  shows "decodeQuantum enc si (b64_Encode enc [s0, s1, s2] @ rest) = (si + 4, rest, [s0, s1, s2], None)"
proof -
  define val :: "64 word" where "val = push_bit 16 (ucast s0) OR push_bit 8 (ucast s1) OR ucast s2"
  define i0 where "i0 = unat (drop_bit 18 val AND 0x3F)"
  define i1 where "i1 = unat (drop_bit 12 val AND 0x3F)"
  define i2 where "i2 = unat (drop_bit 6 val AND 0x3F)"
  define i3 where "i3 = unat (val AND 0x3F)"
  have bounds: "i0 < 64" "i1 < 64" "i2 < 64" "i3 < 64"
    unfolding i0_def i1_def i2_def i3_def by (rule unat_sextet)+
  have enc_eq: "b64_Encode enc [s0, s1, s2] =
      [b64_encode enc ! i0, b64_encode enc ! i1, b64_encode enc ! i2, b64_encode enc ! i3]"
    unfolding i0_def i1_def i2_def i3_def val_def b64_Encode.simps Let_def by (rule refl)
  have loop: "dq_loop enc 0 si [0, 0, 0, 0] (b64_Encode enc [s0, s1, s2] @ rest) =
      DQ_Convert (si + 4) rest 4 [of_nat i0, of_nat i1, of_nat i2, of_nat i3] None"
  proof -
    let ?e = "b64_encode enc"
    have "dq_loop enc 0 si [0, 0, 0, 0] (?e ! i0 # ?e ! i1 # ?e ! i2 # ?e ! i3 # rest) =
          dq_loop enc 1 (si + 1) [of_nat i0, 0, 0, 0] (?e ! i1 # ?e ! i2 # ?e ! i3 # rest)"
      by (rule dq_loop_alpha[OF wf _ bounds(1)]) simp_all
    also have "\<dots> = dq_loop enc 2 (si + 2) [of_nat i0, of_nat i1, 0, 0] (?e ! i2 # ?e ! i3 # rest)"
      by (rule dq_loop_alpha[OF wf _ bounds(2)]) simp_all
    also have "\<dots> = dq_loop enc 3 (si + 3) [of_nat i0, of_nat i1, of_nat i2, 0] (?e ! i3 # rest)"
      by (rule dq_loop_alpha[OF wf _ bounds(3)]) simp_all
    also have "\<dots> = dq_loop enc 4 (si + 4) [of_nat i0, of_nat i1, of_nat i2, of_nat i3] rest"
      by (rule dq_loop_alpha[OF wf _ bounds(4)]) simp_all
    finally show ?thesis unfolding enc_eq by (simp only: dq_loop_done append_Cons append_Nil)
  qed
  have conv: "dq_convert enc (si + 4) rest 4 [of_nat i0, of_nat i1, of_nat i2, of_nat i3] None =
      (si + 4, rest, [s0, s1, s2], None)"
    unfolding dq_convert_def Let_def i0_def i1_def i2_def i3_def of_nat_unat_ucast val_def
    using b64_bits3[of s0 s1 s2] by simp
  show ?thesis
    unfolding decodeQuantum_def loop using conv by simp
qed


lemma dq_loop_pad3:
  assumes wf: "b64_wf enc" and p: "b64_padChar enc = Some p"
  shows "dq_loop enc 3 si dbuf [p] = DQ_Convert (si + 1) [] 3 dbuf None"
proof -
  have "p \<notin> set (b64_encode enc)" "p \<noteq> 0x0A" "p \<noteq> 0x0D"
    using wf p by (auto simp: b64_wf_def)
  then show ?thesis
    using p by (simp add: dq_loop.simps Let_def b64_decodeMap_def newDecodeMap_other dq_padding_tail_def)
qed

lemma dq_loop_pad2:
  assumes wf: "b64_wf enc" and p: "b64_padChar enc = Some p"
  shows "dq_loop enc 2 si dbuf [p, p] = DQ_Convert (si + 2) [] 2 dbuf None"
proof -
  have "p \<notin> set (b64_encode enc)" "p \<noteq> 0x0A" "p \<noteq> 0x0D"
    using wf p by (auto simp: b64_wf_def)
  then show ?thesis
    using p by (simp add: dq_loop.simps Let_def b64_decodeMap_def newDecodeMap_other dq_padding_tail_def)
qed

lemma decodeQuantum_2:
  assumes wf: "b64_wf enc"
  shows "decodeQuantum enc si (b64_Encode enc [s0, s1]) = (si + 4, [], [s0, s1], None)"
proof -
  obtain p where p: "b64_padChar enc = Some p" using wf by (auto simp: b64_wf_def)
  define val :: "64 word" where "val = push_bit 16 (ucast s0) OR push_bit 8 (ucast s1)"
  define i0 where "i0 = unat (drop_bit 18 val AND 0x3F)"
  define i1 where "i1 = unat (drop_bit 12 val AND 0x3F)"
  define i2 where "i2 = unat (drop_bit 6 val AND 0x3F)"
  have bounds: "i0 < 64" "i1 < 64" "i2 < 64"
    unfolding i0_def i1_def i2_def by (rule unat_sextet)+
  have enc_eq: "b64_Encode enc [s0, s1] =
      [b64_encode enc ! i0, b64_encode enc ! i1, b64_encode enc ! i2, p]"
    unfolding i0_def i1_def i2_def val_def b64_Encode.simps Let_def b64_pad_def p by simp
  have loop: "dq_loop enc 0 si [0, 0, 0, 0] (b64_Encode enc [s0, s1]) =
      DQ_Convert (si + 4) [] 3 [of_nat i0, of_nat i1, of_nat i2, 0] None"
  proof -
    let ?e = "b64_encode enc"
    have "dq_loop enc 0 si [0, 0, 0, 0] [?e ! i0, ?e ! i1, ?e ! i2, p] =
          dq_loop enc 1 (si + 1) [of_nat i0, 0, 0, 0] [?e ! i1, ?e ! i2, p]"
      by (rule dq_loop_alpha[OF wf _ bounds(1)]) simp_all
    also have "\<dots> = dq_loop enc 2 (si + 2) [of_nat i0, of_nat i1, 0, 0] [?e ! i2, p]"
      by (rule dq_loop_alpha[OF wf _ bounds(2)]) simp_all
    also have "\<dots> = dq_loop enc 3 (si + 3) [of_nat i0, of_nat i1, of_nat i2, 0] [p]"
      by (rule dq_loop_alpha[OF wf _ bounds(3)]) simp_all
    also have "\<dots> = DQ_Convert (si + 4) [] 3 [of_nat i0, of_nat i1, of_nat i2, 0] None"
      by (simp add: dq_loop_pad3[OF wf p])
    finally show ?thesis unfolding enc_eq .
  qed
  have strict: "\<not> b64_strict enc" using wf by (simp add: b64_wf_def)
  have conv: "dq_convert enc (si + 4) [] 3 [of_nat i0, of_nat i1, of_nat i2, 0] None =
      (si + 4, [], [s0, s1], None)"
    unfolding dq_convert_def Let_def i0_def i1_def i2_def of_nat_unat_ucast val_def
    using b64_bits2[of s0 s1] strict by simp
  show ?thesis
    unfolding decodeQuantum_def loop using conv by simp
qed

lemma decodeQuantum_1:
  assumes wf: "b64_wf enc"
  shows "decodeQuantum enc si (b64_Encode enc [s0]) = (si + 4, [], [s0], None)"
proof -
  obtain p where p: "b64_padChar enc = Some p" using wf by (auto simp: b64_wf_def)
  define val :: "64 word" where "val = push_bit 16 (ucast s0)"
  define i0 where "i0 = unat (drop_bit 18 val AND 0x3F)"
  define i1 where "i1 = unat (drop_bit 12 val AND 0x3F)"
  have bounds: "i0 < 64" "i1 < 64"
    unfolding i0_def i1_def by (rule unat_sextet)+
  have enc_eq: "b64_Encode enc [s0] = [b64_encode enc ! i0, b64_encode enc ! i1, p, p]"
    unfolding i0_def i1_def val_def b64_Encode.simps Let_def b64_pad_def p
    by (simp add: numeral_eq_Suc)
  have loop: "dq_loop enc 0 si [0, 0, 0, 0] (b64_Encode enc [s0]) =
      DQ_Convert (si + 4) [] 2 [of_nat i0, of_nat i1, 0, 0] None"
  proof -
    let ?e = "b64_encode enc"
    have "dq_loop enc 0 si [0, 0, 0, 0] [?e ! i0, ?e ! i1, p, p] =
          dq_loop enc 1 (si + 1) [of_nat i0, 0, 0, 0] [?e ! i1, p, p]"
      by (rule dq_loop_alpha[OF wf _ bounds(1)]) simp_all
    also have "\<dots> = dq_loop enc 2 (si + 2) [of_nat i0, of_nat i1, 0, 0] [p, p]"
      by (rule dq_loop_alpha[OF wf _ bounds(2)]) simp_all
    also have "\<dots> = DQ_Convert (si + 4) [] 2 [of_nat i0, of_nat i1, 0, 0] None"
      by (simp add: dq_loop_pad2[OF wf p])
    finally show ?thesis unfolding enc_eq .
  qed
  have strict: "\<not> b64_strict enc" using wf by (simp add: b64_wf_def)
  have conv: "dq_convert enc (si + 4) [] 2 [of_nat i0, of_nat i1, 0, 0] None =
      (si + 4, [], [s0], None)"
    unfolding dq_convert_def Let_def i0_def i1_def of_nat_unat_ucast val_def
    using b64_bits1[of s0] strict by simp
  show ?thesis
    unfolding decodeQuantum_def loop using conv by simp
qed

lemma b64_Encode_nonempty: "b64_Encode enc (s # src) \<noteq> []"
  by (cases "(enc, s # src)" rule: b64_Encode.cases) (simp_all add: Let_def)

lemma b64_decode_loop_step:
  assumes "decodeQuantum enc si inp = (si', rest', out, None)" "inp \<noteq> []"
  shows "b64_decode_loop enc si inp =
         (case b64_decode_loop enc si' rest' of (out', err') \<Rightarrow> (out @ out', err'))"
  using assms by (subst b64_decode_loop.simps) simp

lemma b64_decode_loop_Nil: "b64_decode_loop enc si [] = ([], None)"
  by (subst b64_decode_loop.simps) simp

lemma b64_decode_loop_Encode:
  "b64_wf enc \<Longrightarrow> b64_decode_loop enc si (b64_Encode enc x) = (x, None)"
proof (induction enc x arbitrary: si rule: b64_Encode.induct)
  case (1 enc s0 s1 s2 src)
  define q where "q = b64_Encode enc [s0, s1, s2]"
  define r where "r = b64_Encode enc src"
  have ne: "q @ r \<noteq> []"
    using b64_Encode_nonempty[of enc s0 "[s1, s2]"] by (simp add: q_def)
  have dq: "decodeQuantum enc si (q @ r) = (si + 4, r, [s0, s1, s2], None)"
    unfolding q_def by (rule decodeQuantum_3[OF "1.prems"])
  have ih: "b64_decode_loop enc (si + 4) r = (src, None)"
    unfolding r_def by (rule "1.IH"[OF refl "1.prems"])
  have "b64_decode_loop enc si (q @ r) = ([s0, s1, s2] @ src, None)"
    by (simp add: b64_decode_loop_step[OF dq ne] ih)
  then show ?case
    unfolding q_def r_def by (subst b64_Encode_3) (simp del: b64_Encode.simps)
next
  case (2 enc s0 s1)
  show ?case
    using b64_decode_loop_step[OF decodeQuantum_2[OF 2, of si s0 s1] b64_Encode_nonempty]
    by (simp add: b64_decode_loop_Nil del: b64_Encode.simps)
next
  case (3 enc s0)
  show ?case
    using b64_decode_loop_step[OF decodeQuantum_1[OF 3, of si s0] b64_Encode_nonempty]
    by (simp add: b64_decode_loop_Nil del: b64_Encode.simps)
next
  case (4 enc)
  show ?case by (simp add: b64_decode_loop_Nil)
qed

lemma b64_Decode_Encode: "b64_wf enc \<Longrightarrow> b64_Decode enc (b64_Encode enc x) = (x, None)"
proof -
  assume wf: "b64_wf enc"
  have "b64_Encode enc x = [] \<Longrightarrow> x = []"
    using b64_Encode_nonempty[of enc] by (cases x) auto
  then show ?thesis
    using b64_decode_loop_Encode[OF wf, of 0 x] by (auto simp: b64_Decode_def)
qed

lemma length_b64_Encode:
  assumes p: "b64_padChar enc = Some p"
  shows "length (b64_Encode enc x) = (length x + 2) div 3 * 4"
  using p
proof (induction enc x rule: b64_Encode.induct)
  case (1 enc s0 s1 s2 src)
  have l1: "length (b64_Encode enc (s0 # s1 # s2 # src)) = 4 + length (b64_Encode enc src)"
    by (simp add: Let_def)
  have l2: "length (s0 # s1 # s2 # src) = length src + 3" by simp
  have ih: "length (b64_Encode enc src) = (length src + 2) div 3 * 4"
    by (rule "1.IH"[OF refl "1.prems"])
  show ?case unfolding l1 l2 ih by presburger
qed (simp_all add: Let_def b64_pad_def)

lemma b64_wf_Std: "b64_wf b64_StdEncoding"
  by (simp add: b64_wf_def b64_StdEncoding_def encodeStd_def StdPadding_def B_def)

lemma b64_wf_URL: "b64_wf b64_URLEncoding"
  by (simp add: b64_wf_def b64_URLEncoding_def encodeURL_def StdPadding_def B_def)

lemma base64Enc_eq: "base64Enc src = (b64_Encode b64_StdEncoding src, None)"
  using length_b64_Encode[of b64_StdEncoding StdPadding src]
  by (simp add: base64Enc_def Let_def make_bytes_def store_exact b64_EncodedLen_def b64_StdEncoding_def)

lemma base64Dec_eq: "base64Dec src = b64_Decode b64_StdEncoding src"
  by (simp add: base64Dec_def Let_def take_store split: prod.splits)

lemma base64_roundtrip: "base64Dec (fst (base64Enc x)) = (x, None)"
  by (simp add: base64Enc_eq base64Dec_eq b64_Decode_Encode b64_wf_Std)

lemma and_0x1F: "(x::byte) AND 0x1F = take_bit 5 x"
  by (simp add: take_bit_eq_mask mask_eq_exp_minus_1)

lemma unat_quintet: "unat ((g::byte) AND 31) < 32"
  by (simp add: and_0x1F take_bit_eq_mod unat_mod)

lemmas byte_bits = bit_simps byte_bit_False numeral_2_eq_2[symmetric] numeral_3_eq_3[symmetric]

lemma b32_pack_groups5:
  "b32_pack 8 (map (\<lambda>g. g AND 0x1F) (b32_groups [s0, s1, s2, s3, s4])) = [s0, s1, s2, s3, s4]"
  unfolding b32_pack_def b32_groups_def Let_def and_0x1F
  by (simp del: push_bit_Suc; intro conjI; rule byte_eqI; simp add: byte_bits del: push_bit_Suc)

lemma b32_pack_groups4:
  "b32_pack 7 (map (\<lambda>g. g AND 0x1F) (take 7 (b32_groups [s0, s1, s2, s3])) @ drop 7 [0, 0, 0, 0, 0, 0, 0, 0]) =
     [s0, s1, s2, s3]"
  unfolding b32_pack_def b32_groups_def Let_def and_0x1F
  by (simp del: push_bit_Suc; intro conjI; rule byte_eqI; simp add: byte_bits del: push_bit_Suc)

lemma b32_pack_groups3:
  "b32_pack 5 (map (\<lambda>g. g AND 0x1F) (take 5 (b32_groups [s0, s1, s2])) @ drop 5 [0, 0, 0, 0, 0, 0, 0, 0]) =
     [s0, s1, s2]"
  unfolding b32_pack_def b32_groups_def Let_def and_0x1F
  by (simp del: push_bit_Suc; intro conjI; rule byte_eqI; simp add: byte_bits del: push_bit_Suc)

lemma b32_pack_groups2:
  "b32_pack 4 (map (\<lambda>g. g AND 0x1F) (take 4 (b32_groups [s0, s1])) @ drop 4 [0, 0, 0, 0, 0, 0, 0, 0]) =
     [s0, s1]"
  unfolding b32_pack_def b32_groups_def Let_def and_0x1F
  by (simp del: push_bit_Suc; intro conjI; rule byte_eqI; simp add: byte_bits del: push_bit_Suc)

lemma b32_pack_groups1:
  "b32_pack 2 (map (\<lambda>g. g AND 0x1F) (take 2 (b32_groups [s0])) @ drop 2 [0, 0, 0, 0, 0, 0, 0, 0]) =
     [s0]"
  unfolding b32_pack_def b32_groups_def Let_def and_0x1F
  by (simp del: push_bit_Suc; rule byte_eqI; simp add: byte_bits del: push_bit_Suc)


lemma b32_read_done: "b32_read enc olen 8 dbuf src = Q_Read 8 False dbuf src"
  by (cases src) (simp_all add: b32_read.simps)

lemma b32_read_alpha:
  assumes "b32_wf enc" "j < 8" "i < 32"
  shows "b32_read enc olen j dbuf (b32_encode enc ! i # src) =
         b32_read enc olen (Suc j) (dbuf[j := of_nat i]) src"
proof -
  have "b32_decodeMap enc (b32_encode enc ! i) = of_nat i"
    using assms by (simp add: b32_decodeMap_def b32_wf_def newDecodeMap_nth)
  moreover have "(of_nat i :: byte) \<noteq> 0xFF" using assms(3) by (simp add: of_nat_neq_0xFF)
  moreover have "b32_encode enc ! i \<noteq> b32_padByte enc"
    using assms(1,3) by (auto simp: b32_wf_def b32_padByte_def)
  ultimately show ?thesis using assms(2) by (simp add: Let_def b32_read.simps)
qed

lemma b32_read_groups:
  assumes wf: "b32_wf enc"
  shows "j + length gs \<le> 8 \<Longrightarrow> length dbuf = 8 \<Longrightarrow>
     b32_read enc olen j dbuf (b32_chars enc gs @ rest) =
     b32_read enc olen (j + length gs)
       (take j dbuf @ map (\<lambda>g. g AND 31) gs @ drop (j + length gs) dbuf) rest"
proof (induction gs arbitrary: j dbuf)
  case Nil
  then show ?case by (simp add: b32_chars_def)
next
  case (Cons g gs)
  let ?d = "g AND 31"
  have j: "j < 8" "j < length dbuf" using Cons.prems by simp_all
  have "b32_read enc olen j dbuf (b32_chars enc (g # gs) @ rest) =
        b32_read enc olen (Suc j) (dbuf[j := ?d]) (b32_chars enc gs @ rest)"
    using b32_read_alpha[OF wf j(1) unat_quintet[of g], of olen dbuf "b32_chars enc gs @ rest"]
    by (simp add: b32_chars_def)
  also have "\<dots> = b32_read enc olen (Suc j + length gs)
       (take (Suc j) (dbuf[j := ?d]) @ map (\<lambda>g. g AND 31) gs @
        drop (Suc j + length gs) (dbuf[j := ?d])) rest"
    using Cons.prems by (intro Cons.IH) simp_all
  also have "take (Suc j) (dbuf[j := ?d]) = take j dbuf @ [?d]"
    using j(2) by (simp add: take_Suc_conv_app_nth)
  also have "drop (Suc j + length gs) (dbuf[j := ?d]) = drop (Suc j + length gs) dbuf"
    by simp
  finally show ?case by simp
qed

lemma b32_read_pad:
  assumes wf: "b32_wf enc" and p: "b32_padChar enc = Some p"
    and j: "j = 2 \<or> j = 4 \<or> j = 5 \<or> j = 7"
  shows "b32_read enc olen j dbuf (replicate (8 - j) p) = Q_Read j True dbuf (replicate (7 - j) p)"
proof -
  have rep: "replicate (8 - j) p = p # replicate (7 - j) p"
    using j by (auto simp: numeral_eq_Suc)
  have pb: "b32_padByte enc = p" using p by (simp add: b32_padByte_def)
  have flt: "filter (\<lambda>k. length (replicate (7 - j) p) > k \<and> replicate (7 - j) p ! k \<noteq> p) [0 ..< 8 - 1 - j] = []"
    by (auto simp: filter_empty_conv)
  show ?thesis
    unfolding rep using j flt by (auto simp add: b32_read.simps pb)
qed

lemma b32_decode_end: "b32_decode enc olen src True = ([], None)"
  by (subst b32_decode.simps) simp

lemma b32_decode_Nil: "b32_decode enc olen [] e = ([], None)"
  by (subst b32_decode.simps) simp

lemma b32_decode_step:
  assumes "b32_read enc olen 0 [0, 0, 0, 0, 0, 0, 0, 0] src = Q_Read dlen e' dbuf rest" "src \<noteq> []"
  shows "b32_decode enc olen src False =
         (case b32_decode enc olen rest e' of (out, err) \<Rightarrow> (b32_pack dlen dbuf @ out, err))"
  using assms by (subst b32_decode.simps) simp

lemma b32_chars_nonempty: "gs \<noteq> [] \<Longrightarrow> b32_chars enc gs @ rest \<noteq> []"
  by (simp add: b32_chars_def)

lemma length_b32_groups: "length (b32_groups q) = 8"
  by (simp add: b32_groups_def Let_def)

lemma b32_tail:
  assumes wf: "b32_wf enc" and p: "b32_padChar enc = Some p"
    and n: "n = 2 \<or> n = 4 \<or> n = 5 \<or> n = 7"
  shows "b32_decode enc olen (b32_chars enc (take n (b32_groups q)) @ b32_pad enc (8 - n)) False =
         (b32_pack n (map (\<lambda>g. g AND 31) (take n (b32_groups q)) @ drop n [0, 0, 0, 0, 0, 0, 0, 0]), None)"
proof -
  let ?gs = "take n (b32_groups q)"
  have len: "length ?gs = n" using n by (auto simp: length_b32_groups)
  have ne: "b32_chars enc ?gs @ b32_pad enc (8 - n) \<noteq> []"
    using len n by (intro b32_chars_nonempty) auto
  have "b32_read enc olen 0 [0, 0, 0, 0, 0, 0, 0, 0] (b32_chars enc ?gs @ b32_pad enc (8 - n)) =
        b32_read enc olen n (map (\<lambda>g. g AND 31) ?gs @ drop n [0, 0, 0, 0, 0, 0, 0, 0]) (replicate (8 - n) p)"
    using b32_read_groups[OF wf, of 0 ?gs "[0, 0, 0, 0, 0, 0, 0, 0]" olen "b32_pad enc (8 - n)"] len n
    by (auto simp: b32_pad_def p)
  also have "\<dots> = Q_Read n True (map (\<lambda>g. g AND 31) ?gs @ drop n [0, 0, 0, 0, 0, 0, 0, 0]) (replicate (7 - n) p)"
    by (rule b32_read_pad[OF wf p n])
  finally show ?thesis
    using b32_decode_step[OF _ ne] by (simp add: b32_decode_end)
qed

lemma b32_Encode_5:
  "b32_Encode enc (s0 # s1 # s2 # s3 # s4 # src) =
   b32_chars enc (b32_groups [s0, s1, s2, s3, s4]) @ b32_Encode enc src"
  by simp

lemma b32_decode_Encode:
  "b32_wf enc \<Longrightarrow> b32_decode enc olen (b32_Encode enc x) False = (x, None)"
proof (induction enc x rule: b32_Encode.induct)
  case (1 enc s0 s1 s2 s3 s4 src)
  let ?gs = "b32_groups [s0, s1, s2, s3, s4]"
  define r where "r = b32_Encode enc src"
  have ne: "b32_chars enc ?gs @ r \<noteq> []"
    by (rule b32_chars_nonempty) (simp add: b32_groups_def Let_def)
  have "b32_read enc olen 0 [0, 0, 0, 0, 0, 0, 0, 0] (b32_chars enc ?gs @ r) =
        b32_read enc olen 8 (map (\<lambda>g. g AND 31) ?gs) r"
    using b32_read_groups[OF "1.prems", of 0 ?gs "[0, 0, 0, 0, 0, 0, 0, 0]" olen r]
    by (simp add: length_b32_groups)
  then have rd: "b32_read enc olen 0 [0, 0, 0, 0, 0, 0, 0, 0] (b32_chars enc ?gs @ r) =
        Q_Read 8 False (map (\<lambda>g. g AND 31) ?gs) r"
    by (simp only: b32_read_done)
  have ih: "b32_decode enc olen r False = (src, None)"
    unfolding r_def by (rule "1.IH"[OF "1.prems"])
  have "b32_decode enc olen (b32_chars enc ?gs @ r) False = ([s0, s1, s2, s3, s4] @ src, None)"
    by (simp add: b32_decode_step[OF rd ne] ih b32_pack_groups5)
  then show ?case unfolding r_def by (simp only: b32_Encode_5 append_Cons append_Nil)
next
  case (2 enc s0 s1 s2 s3)
  obtain p where p: "b32_padChar enc = Some p" using 2 by (auto simp: b32_wf_def)
  show ?case
    using b32_tail[OF 2 p, of 7 olen "[s0, s1, s2, s3]", unfolded b32_pack_groups4] by simp
next
  case (3 enc s0 s1 s2)
  obtain p where p: "b32_padChar enc = Some p" using 3 by (auto simp: b32_wf_def)
  show ?case
    using b32_tail[OF 3 p, of 5 olen "[s0, s1, s2]", unfolded b32_pack_groups3] by simp
next
  case (4 enc s0 s1)
  obtain p where p: "b32_padChar enc = Some p" using 4 by (auto simp: b32_wf_def)
  show ?case
    using b32_tail[OF 4 p, of 4 olen "[s0, s1]", unfolded b32_pack_groups2] by simp
next
  case (5 enc s0)
  obtain p where p: "b32_padChar enc = Some p" using 5 by (auto simp: b32_wf_def)
  show ?case
    using b32_tail[OF 5 p, of 2 olen "[s0]", unfolded b32_pack_groups1] by simp
next
  case (6 enc)
  show ?case by (simp add: b32_decode_Nil)
qed

lemma b32_chars_subset:
  "length (b32_encode enc) = 32 \<Longrightarrow> set (b32_chars enc gs) \<subseteq> set (b32_encode enc)"
  using unat_quintet by (auto simp: b32_chars_def)

lemma b32_Encode_subset:
  assumes "length (b32_encode enc) = 32" "b32_padChar enc = Some p"
  shows "set (b32_Encode enc x) \<subseteq> set (b32_encode enc) \<union> {p}"
  using assms
proof (induction enc x rule: b32_Encode.induct)
  case (1 enc s0 s1 s2 s3 s4 src)
  then show ?case
    using b32_chars_subset[of enc "b32_groups [s0, s1, s2, s3, s4]"]
    by (auto simp del: b32_Encode.simps simp add: b32_Encode_5)
qed (use b32_chars_subset in \<open>auto simp: b32_pad_def\<close>)

lemma stripNewlines_id: "0x0A \<notin> set s \<Longrightarrow> 0x0D \<notin> set s \<Longrightarrow> stripNewlines s = s"
  unfolding stripNewlines_def by (rule filter_True) auto

lemma b32_Decode_Encode:
  assumes wf: "b32_wf enc"
  shows "b32_Decode enc (b32_Encode enc x) = (x, None)"
proof -
  obtain p where p: "b32_padChar enc = Some p" "p \<noteq> 0x0A" "p \<noteq> 0x0D"
    using wf by (auto simp: b32_wf_def)
  have len: "length (b32_encode enc) = 32" using wf by (simp add: b32_wf_def)
  have "0x0A \<notin> set (b32_Encode enc x)" "0x0D \<notin> set (b32_Encode enc x)"
    using b32_Encode_subset[OF len p(1), of x] wf p by (auto simp: b32_wf_def)
  then have "stripNewlines (b32_Encode enc x) = b32_Encode enc x"
    by (rule stripNewlines_id)
  then show ?thesis
    by (simp add: b32_Decode_def Let_def b32_decode_Encode[OF wf])
qed

lemma length_b32_Encode:
  assumes p: "b32_padChar enc = Some p"
  shows "length (b32_Encode enc x) = (length x + 4) div 5 * 8"
  using p
proof (induction enc x rule: b32_Encode.induct)
  case (1 enc s0 s1 s2 s3 s4 src)
  have l1: "length (b32_Encode enc (s0 # s1 # s2 # s3 # s4 # src)) = 8 + length (b32_Encode enc src)"
    by (simp add: b32_chars_def length_b32_groups)
  have l2: "length (s0 # s1 # s2 # s3 # s4 # src) + 4 = (length src + 4) + 5" by simp
  have ih: "length (b32_Encode enc src) = (length src + 4) div 5 * 8"
    by (rule "1.IH"[OF "1.prems"])
  have "((length src + 4) + 5) div 5 = (length src + 4) div 5 + 1" by simp
  then show ?case unfolding l1 l2 ih by simp
next
  case (2 enc s0 s1 s2 s3)
  then show ?case by (simp add: b32_pad_def b32_chars_def length_b32_groups)
next
  case (3 enc s0 s1 s2)
  then show ?case by (simp add: b32_pad_def b32_chars_def length_b32_groups)
next
  case (4 enc s0 s1)
  then show ?case by (simp add: b32_pad_def b32_chars_def length_b32_groups)
next
  case (5 enc s0)
  then show ?case by (simp add: b32_pad_def b32_chars_def length_b32_groups)
next
  case (6 enc)
  then show ?case by simp
qed

lemma b32_wf_Std: "b32_wf b32_StdEncoding"
  by (simp add: b32_wf_def b32_StdEncoding_def b32_NewEncoding_def StdPadding_def B_def)

lemma b32_wf_Hex: "b32_wf b32_HexEncoding"
  by (simp add: b32_wf_def b32_HexEncoding_def b32_NewEncoding_def StdPadding_def B_def)

lemma b32_wf_crockford: "b32_wf crockfordEnc"
  by (simp add: b32_wf_def crockfordEnc_def b32_NewEncoding_def StdPadding_def B_def)

lemma b32_enc_eq:
  assumes "b32_padChar enc = Some p"
  shows "store (make_bytes (b32_EncodedLen enc (length src))) (b32_Encode enc src) = b32_Encode enc src"
  using length_b32_Encode[OF assms, of src] assms
  by (simp add: make_bytes_def store_exact b32_EncodedLen_def)

lemma base32Enc_eq: "base32Enc src = (b32_Encode b32_StdEncoding src, None)"
  using b32_enc_eq[of b32_StdEncoding StdPadding src]
  by (simp add: base32Enc_def Let_def b32_StdEncoding_def b32_NewEncoding_def)

lemma base32HexEnc_eq: "base32HexEnc src = (b32_Encode b32_HexEncoding src, None)"
  using b32_enc_eq[of b32_HexEncoding StdPadding src]
  by (simp add: base32HexEnc_def Let_def b32_HexEncoding_def b32_NewEncoding_def)

lemma base32CrockfordEnc_eq: "base32CrockfordEnc src = (b32_Encode crockfordEnc src, None)"
  using b32_enc_eq[of crockfordEnc StdPadding src]
  by (simp add: base32CrockfordEnc_def Let_def crockfordEnc_def b32_NewEncoding_def)

lemma base32Dec_eq: "base32Dec src = b32_Decode b32_StdEncoding src"
  by (simp add: base32Dec_def Let_def take_store split: prod.splits)

lemma base32HexDec_eq: "base32HexDec src = b32_Decode b32_HexEncoding src"
  by (simp add: base32HexDec_def Let_def take_store split: prod.splits)

lemma base32_roundtrip: "base32Dec (fst (base32Enc x)) = (x, None)"
  by (simp add: base32Enc_eq base32Dec_eq b32_Decode_Encode b32_wf_Std)

lemma base32Hex_roundtrip: "base32HexDec (fst (base32HexEnc x)) = (x, None)"
  by (simp add: base32HexEnc_eq base32HexDec_eq b32_Decode_Encode b32_wf_Hex)

section \<open>Round trips of hex, base64 and base32\<close>

text \<open>
  C1: for every byte sequence \<open>x\<close> and each of the modes hex, base64, base32 and
  base32-hex, the encoder returns no error and the decoder applied to the encoder's output
  returns exactly \<open>x\<close> and no error.
\<close>

theorem decode_encode_roundtrip:
  "snd (hexEnc x) = None \<and> hexDec (fst (hexEnc x)) = (x, None) \<and>
   snd (base64Enc x) = None \<and> base64Dec (fst (base64Enc x)) = (x, None) \<and>
   snd (base32Enc x) = None \<and> base32Dec (fst (base32Enc x)) = (x, None) \<and>
   snd (base32HexEnc x) = None \<and> base32HexDec (fst (base32HexEnc x)) = (x, None)"
  using hex_roundtrip[of x] base64_roundtrip[of x] base32_roundtrip[of x] base32Hex_roundtrip[of x]
  by (simp add: hexEnc_eq base64Enc_eq base32Enc_eq base32HexEnc_eq)

section \<open>Properties of the Crockford transform\<close>

lemma base32CrockfordDec_eq:
  "base32CrockfordDec up src = b32_Decode crockfordEnc (crockford_normalize up src)"
  by (simp add: base32CrockfordDec_def Let_def take_store split: prod.splits)

text \<open>What the normalization does to one ASCII byte.\<close>

definition norm1 :: "byte \<Rightarrow> bytes" where
  "norm1 c =
     (let u = ascii_upper c in
      if u = 0x49 \<or> u = 0x4C then [0x31] else if u = 0x4F then [0x30]
      else if u = 0x2D then [] else [u])"

lemma bytes_Replace_append:
  "bytes_Replace (a @ b) old new = bytes_Replace a old new @ bytes_Replace b old new"
  by (induction a) simp_all

lemma replace_chain:
  "bytes_Replace (bytes_Replace (bytes_Replace (bytes_Replace (map ascii_upper s) 0x49 (B ''1''))
      0x4C (B ''1'')) 0x4F (B ''0'')) 0x2D [] = concat (map norm1 s)"
proof (induction s)
  case Nil
  show ?case by simp
next
  case (Cons c s)
  show ?case
    using Cons by (simp add: norm1_def Let_def B_def bytes_Replace_append)
qed

lemma crockford_normalize_ascii:
  "isASCII s \<Longrightarrow> crockford_normalize up s = concat (map norm1 s)"
  by (simp add: crockford_normalize_def bytes_ToUpper_def Let_def replace_chain)

lemma ascii_upper_swap_case: "is_letter c \<Longrightarrow> ascii_upper (swap_case c) = ascii_upper c"
proof -
  assume l: "is_letter c"
  have u: "unat (c + 0x20) = unat c + 32" if "unat c \<le> 90"
    using that by (simp add: unat_word_ariths)
  have d: "unat (c - 0x20) = unat c - 32" if "97 \<le> unat c"
    using that by (simp add: unat_sub word_le_nat_alt)
  have "unat (ascii_upper (swap_case c)) = unat (ascii_upper c)"
  proof (cases "0x41 \<le> c \<and> c \<le> 0x5A")
    case True
    then have b: "65 \<le> unat c" "unat c \<le> 90" by (simp_all add: word_le_nat_alt)
    then have "unat (ascii_upper (c + 0x20)) = unat c"
      using u by (simp add: ascii_upper_def word_le_nat_alt unat_sub)
    moreover have "ascii_upper c = c" using b by (simp add: ascii_upper_def word_le_nat_alt)
    ultimately show ?thesis using True by (simp add: swap_case_def)
  next
    case False
    with l have lo: "0x61 \<le> c" "c \<le> 0x7A" by (auto simp: is_letter_def)
    then have b: "97 \<le> unat c" "unat c \<le> 122" by (simp_all add: word_le_nat_alt)
    have "\<not> (0x61 \<le> c - 0x20 \<and> c - 0x20 \<le> 0x7A)"
      using b d by (simp add: word_le_nat_alt)
    then have "ascii_upper (c - 0x20) = c - 0x20"
      unfolding ascii_upper_def by (simp only: if_False)
    moreover have "ascii_upper c = c - 0x20"
      using lo by (simp add: ascii_upper_def)
    ultimately have "ascii_upper (swap_case c) = ascii_upper c"
      using False unfolding swap_case_def by (simp only: if_False)
    then show ?thesis by simp
  qed
  then show ?thesis by (simp add: word_unat_eq_iff)
qed

lemma swap_case_ascii: "is_letter c \<Longrightarrow> swap_case c < 0x80 \<and> c < 0x80"
proof -
  assume l: "is_letter c"
  have u: "unat (c + 0x20) = unat c + 32" if "unat c \<le> 90"
    using that by (simp add: unat_word_ariths)
  have d: "unat (c - 0x20) = unat c - 32" if "97 \<le> unat c"
    using that by (simp add: unat_sub word_le_nat_alt)
  show ?thesis
    using l u d
    by (auto simp: is_letter_def swap_case_def word_le_nat_alt word_less_nat_alt)
qed

lemma norm1_swap_case: "is_letter c \<Longrightarrow> norm1 (swap_case c) = norm1 c"
  by (simp add: norm1_def ascii_upper_swap_case)

lemma crock_variant_norm:
  "crock_variant t t' \<Longrightarrow>
     (isASCII t \<longleftrightarrow> isASCII t') \<and> concat (map norm1 t) = concat (map norm1 t')"
proof (induction rule: crock_variant.induct)
  case V_Nil
  show ?case by simp
next
  case (V_Keep t t' c)
  then show ?case by (simp add: isASCII_def)
next
  case (V_Case t t' c)
  then show ?case
    using swap_case_ascii[of c] by (simp add: isASCII_def norm1_swap_case)
next
  case (V_IL t t' c)
  then show ?case by (auto simp: isASCII_def norm1_def ascii_upper_def)
next
  case (V_O t t')
  then show ?case by (simp add: isASCII_def norm1_def ascii_upper_def)
next
  case (V_Dash t t')
  then show ?case by (simp add: isASCII_def norm1_def ascii_upper_def)
next
  case (V_Sym t t')
  then show ?case by simp
next
  case (V_Trans t t' t'')
  then show ?case by simp
qed

lemma crockford_alphabet_norm1:
  "c \<in> set (b32_encode crockfordEnc) \<union> {StdPadding} \<Longrightarrow> norm1 c = [c] \<and> c < 0x80"
  by (simp add: crockfordEnc_def b32_NewEncoding_def B_def StdPadding_def)
     (elim disjE; simp add: norm1_def ascii_upper_def)

lemma concat_map_id: "\<forall>c \<in> set xs. f c = [c] \<Longrightarrow> concat (map f xs) = xs"
  by (induction xs) simp_all

lemma replicate_6: "replicate 6 x = [x, x, x, x, x, x]"
  by (simp add: numeral_eq_Suc)

lemma crockford_normalize_Encode:
  "crockford_normalize up (b32_Encode crockfordEnc x) = b32_Encode crockfordEnc x"
proof -
  let ?e = "b32_Encode crockfordEnc x"
  have sub: "set ?e \<subseteq> set (b32_encode crockfordEnc) \<union> {StdPadding}"
    by (rule b32_Encode_subset) (simp_all add: crockfordEnc_def b32_NewEncoding_def B_def)
  then have each: "\<forall>c \<in> set ?e. norm1 c = [c] \<and> c < 0x80"
    using crockford_alphabet_norm1 by blast
  then have "isASCII ?e" by (simp add: isASCII_def list_all_iff)
  moreover have "concat (map norm1 ?e) = ?e"
    using each by (intro concat_map_id) simp
  ultimately show ?thesis by (simp add: crockford_normalize_ascii)
qed

text \<open>
  C2: decoding what the Crockford encoder produced gives back the input and no error; and
  for every ASCII text (the encoder's output and all its variants are ASCII), a text that
  differs from it by letters written in the other case, by \<^verbatim>\<open>I\<close> or \<^verbatim>\<open>L\<close> against
  \<^verbatim>\<open>1\<close>, by \<^verbatim>\<open>O\<close> against \<^verbatim>\<open>0\<close>, or by \<^verbatim>\<open>-\<close> characters put in at any positions
  decodes to the same bytes and the same error value.
\<close>

theorem crockford_roundtrip_and_tolerance:
  "base32CrockfordDec up (fst (base32CrockfordEnc x)) = (x, None) \<and>
   (\<forall>t t'. isASCII t \<and> crock_variant t t' \<longrightarrow>
      base32CrockfordDec up t' = base32CrockfordDec up t)"
proof -
  have rt: "base32CrockfordDec up (fst (base32CrockfordEnc x)) = (x, None)"
    by (simp add: base32CrockfordEnc_eq base32CrockfordDec_eq crockford_normalize_Encode
        b32_Decode_Encode b32_wf_crockford)
  have tol: "base32CrockfordDec up t' = base32CrockfordDec up t"
    if "isASCII t" "crock_variant t t'" for t t'
  proof -
    have "isASCII t'" "concat (map norm1 t) = concat (map norm1 t')"
      using crock_variant_norm[OF that(2)] that(1) by simp_all
    then show ?thesis
      using that(1) by (simp add: base32CrockfordDec_eq crockford_normalize_ascii)
  qed
  show ?thesis using rt tol by blast
qed

theorem crockford_roundtrip_and_tolerance_witness:
  "base32CrockfordDec id (fst (base32CrockfordEnc [0xFF])) = ([0xFF], None) \<and>
   isASCII (B ''ZW======'') \<and> crock_variant (B ''ZW======'') (B ''z-w======'') \<and>
   base32CrockfordDec id (B ''z-w======'') = base32CrockfordDec id (B ''ZW======'')"
proof -
  have a: "isASCII (B ''ZW======'')" by (simp add: isASCII_def B_def)
  have l: "is_letter 0x5A" "is_letter 0x57" by (simp_all add: is_letter_def)
  have s: "swap_case 0x5A = 0x7A" "swap_case 0x57 = 0x77" by (simp_all add: swap_case_def)
  have r: "crock_variant [0x3D, 0x3D, 0x3D, 0x3D, 0x3D, 0x3D] [0x3D, 0x3D, 0x3D, 0x3D, 0x3D, 0x3D]"
    by (intro V_Keep V_Nil)
  have "crock_variant (0x5A # 0x57 # [0x3D, 0x3D, 0x3D, 0x3D, 0x3D, 0x3D])
          (swap_case 0x5A # 0x2D # swap_case 0x57 # [0x3D, 0x3D, 0x3D, 0x3D, 0x3D, 0x3D])"
    by (intro V_Case V_Dash r l)
  then have v: "crock_variant (B ''ZW======'') (B ''z-w======'')"
    by (simp add: B_def s)
  show ?thesis
    using crockford_roundtrip_and_tolerance[of id "[0xFF]"] a v by blast
qed

text \<open>
  C8, as the code has it: the Crockford encoding of the byte 0xFF is \<^verbatim>\<open>ZW======\<close>, two
  characters of the Crockford alphabet followed by six padding characters \<^verbatim>\<open>=\<close>, so it
  consists of alphabet and padding characters only and holds none of \<^verbatim>\<open>I\<close>, \<^verbatim>\<open>L\<close>,
  \<^verbatim>\<open>O\<close>, \<^verbatim>\<open>U\<close>; and decoding \<^verbatim>\<open>zz-\<close> gives what decoding \<^verbatim>\<open>ZZ\<close> gives, which is no
  bytes and the error for missing padding.
\<close>

theorem crockford_example:
  "base32CrockfordEnc [0xFF] = (B ''ZW======'', None) \<and>
   set (fst (base32CrockfordEnc [0xFF])) \<subseteq> set (b32_encode crockfordEnc) \<union> {StdPadding} \<and>
   set (fst (base32CrockfordEnc [0xFF])) \<inter> set (B ''ILOU'') = {} \<and>
   base32CrockfordDec up (B ''zz-'') = base32CrockfordDec up (B ''ZZ'') \<and>
   base32CrockfordDec up (B ''ZZ'') = ([], Some (Base32CorruptInputError 0))"
proof -
  have e: "base32CrockfordEnc [0xFF] = (B ''ZW======'', None)"
    by (simp add: base32CrockfordEnc_eq crockfordEnc_def b32_NewEncoding_def b32_chars_def
        b32_groups_def b32_pad_def StdPadding_def B_def replicate_6)
  have n1: "crockford_normalize up (B ''zz-'') = B ''ZZ''"
    by (simp add: crockford_normalize_def bytes_ToUpper_def isASCII_def ascii_upper_def B_def)
  have n2: "crockford_normalize up (B ''ZZ'') = B ''ZZ''"
    by (simp add: crockford_normalize_def bytes_ToUpper_def isASCII_def ascii_upper_def B_def)
  have d: "b32_Decode crockfordEnc (B ''ZZ'') = ([], Some (Base32CorruptInputError 0))"
    by (simp add: b32_Decode_def stripNewlines_def B_def b32_decode.simps b32_read.simps
        b32_decodeMap_def newDecodeMap_def crockfordEnc_def b32_NewEncoding_def
        b32_padByte_def StdPadding_def Let_def)
  show ?thesis
    unfolding e base32CrockfordDec_eq n1 n2 d
    by (simp add: crockfordEnc_def b32_NewEncoding_def StdPadding_def B_def)
qed

text \<open>
  The first part of C8 as it is stated fails: the output holds the padding character
  \<^verbatim>\<open>=\<close>, which is not a character of the Crockford alphabet.
\<close>

theorem crockford_example_counterexample:
  "\<not> set (fst (base32CrockfordEnc [0xFF])) \<subseteq> set (b32_encode crockfordEnc)"
proof -
  have e: "base32CrockfordEnc [0xFF] = (B ''ZW======'', None)"
    by (simp add: base32CrockfordEnc_eq crockfordEnc_def b32_NewEncoding_def b32_chars_def
        b32_groups_def b32_pad_def StdPadding_def B_def replicate_6)
  show ?thesis
    unfolding e by (simp add: crockfordEnc_def b32_NewEncoding_def B_def)
qed

section \<open>Properties of the URL decoders\<close>

definition plus_to_space :: "byte \<Rightarrow> byte" where
  "plus_to_space c = (if c = 0x2B then 0x20 else c)"

lemma list3_cases:
  obtains (none) "s = []" | (one) a where "s = [a]" | (more) a b s' where "s = a # b # s'"
  by (cases s; cases "tl s") auto

lemma unescape_scan_percent:
  "unescape_scan mode n hp (0x25 # a # b # s') =
     (if \<not> ishex a \<or> \<not> ishex b then Inl (EscapeError [0x25, a, b])
      else unescape_scan mode (n + 1) hp s')"
  "unescape_scan mode n hp [0x25, a] = Inl (EscapeError [0x25, a])"
  "unescape_scan mode n hp [0x25] = Inl (EscapeError [0x25])"
  by simp_all

lemma unescape_scan_other:
  "c \<noteq> 0x25 \<Longrightarrow> unescape_scan mode n hp (c # s) =
     unescape_scan mode n (if c = 0x2B then mode = encodeQueryComponent else hp) s"
  by simp

lemma unescape_write_percent:
  "unescape_write mode (0x25 # a # b # s') =
     map_option ((#) (push_bit 4 (unhex a) OR unhex b)) (unescape_write mode s')"
  "unescape_write mode [0x25, a] = None"
  "unescape_write mode [0x25] = None"
  by simp_all

lemma unescape_write_other:
  "c \<noteq> 0x25 \<Longrightarrow> unescape_write mode (c # s) =
     map_option ((#) (if c = 0x2B then (if mode = encodeQueryComponent then 0x20 else 0x2B) else c))
       (unescape_write mode s)"
  by simp

declare unescape_scan.simps [simp del] unescape_write.simps [simp del]

text \<open>Induction along the way both loops walk through the string.\<close>

lemma percent_induct [case_names Nil Escape Short2 Short1 Other]:
  assumes "P []"
    and "\<And>a b s. P s \<Longrightarrow> P (0x25 # a # b # s)"
    and "\<And>a. P [0x25, a]"
    and "P [0x25]"
    and "\<And>c s. c \<noteq> 0x25 \<Longrightarrow> P s \<Longrightarrow> P (c # s)"
  shows "P (s :: bytes)"
proof (induction s rule: length_induct)
  case (1 s)
  show ?case
  proof (cases s)
    case Nil
    then show ?thesis using assms(1) by simp
  next
    case (Cons c t)
    show ?thesis
    proof (cases "c = 0x25")
      case False
      then show ?thesis using Cons assms(5) 1 by simp
    next
      case True
      show ?thesis
      proof (cases t rule: list3_cases)
        case none
        then show ?thesis using True Cons assms(4) by simp
      next
        case (one a)
        then show ?thesis using True Cons assms(3) by simp
      next
        case (more a b s')
        then show ?thesis using True Cons assms(2)[of s' a b] 1 by simp
      qed
    qed
  qed
qed

text \<open>
  The outcome of the first loop: the error, or the number of escapes. The error does not
  depend on the mode.
\<close>

fun scan_spec :: "bytes \<Rightarrow> error + nat" where
  "scan_spec [] = Inr 0"
| "scan_spec (c # s) =
     (if c = 0x25 then
        (case s of
           a # b # s' \<Rightarrow>
             if \<not> ishex a \<or> \<not> ishex b then Inl (EscapeError [0x25, a, b])
             else map_sum id Suc (scan_spec s')
         | _ \<Rightarrow> Inl (EscapeError (c # s)))
      else scan_spec s)"

lemma ishex_not_plus: "ishex a \<Longrightarrow> a \<noteq> 0x2B"
  by (auto simp: ishex_def)

lemma unescape_scan_spec:
  "unescape_scan mode n hp s =
     (case scan_spec s of
        Inl e \<Rightarrow> Inl e
      | Inr k \<Rightarrow> Inr (n + k, if 0x2B \<in> set s then mode = encodeQueryComponent else hp))"
proof (induction s arbitrary: n hp rule: percent_induct)
  case Nil
  show ?case by (simp add: unescape_scan.simps)
next
  case (Escape a b s)
  show ?case
  proof (cases "\<not> ishex a \<or> \<not> ishex b")
    case True
    then show ?thesis by (auto simp add: unescape_scan_percent)
  next
    case False
    then have h: "ishex a" "ishex b" by simp_all
    have ih: "unescape_scan mode (Suc n) hp s =
       (case scan_spec s of Inl e \<Rightarrow> Inl e
        | Inr k \<Rightarrow> Inr (Suc n + k, if 0x2B \<in> set s then mode = encodeQueryComponent else hp))"
      by (rule Escape)
    show ?thesis
      using h ishex_not_plus[OF h(1)] ishex_not_plus[OF h(2)]
      by (cases "scan_spec s") (simp_all add: unescape_scan_percent ih)
  qed
next
  case (Short2 a)
  show ?case by (simp add: unescape_scan_percent)
next
  case Short1
  show ?case by (simp add: unescape_scan_percent)
next
  case (Other c s)
  show ?case
    using Other(1) Other(2)[of n "if c = 0x2B then mode = encodeQueryComponent else hp"]
    by (auto simp add: unescape_scan_other split: sum.splits)
qed

text \<open>What the second loop writes, when the first loop has accepted the string.\<close>

fun write_spec :: "(byte \<Rightarrow> byte) \<Rightarrow> bytes \<Rightarrow> bytes" where
  "write_spec f [] = []"
| "write_spec f (c # s) =
     (if c = 0x25 then
        (case s of
           a # b # s' \<Rightarrow> (push_bit 4 (unhex a) OR unhex b) # write_spec f s'
         | _ \<Rightarrow> [])
      else f c # write_spec f s)"

lemma unescape_write_spec:
  "scan_spec s = Inr k \<Longrightarrow>
     unescape_write mode s =
       Some (write_spec (if mode = encodeQueryComponent then plus_to_space else id) s)"
proof (induction s arbitrary: k rule: percent_induct)
  case Nil
  show ?case by (simp add: unescape_write.simps)
next
  case (Escape a b s)
  from Escape.prems obtain k' where "scan_spec s = Inr k'"
    by (cases "scan_spec s") (auto split: if_splits)
  from Escape.IH[OF this] show ?case by (simp add: unescape_write_percent)
next
  case (Short2 a)
  then show ?case by simp
next
  case Short1
  then show ?case by simp
next
  case (Other c s)
  then have "scan_spec s = Inr k" by simp
  from Other.IH[OF this] show ?case
    using Other.hyps by (simp add: unescape_write_other plus_to_space_def)
qed

lemma write_spec_no_percent: "0x25 \<notin> set s \<Longrightarrow> write_spec f s = map f s"
  by (induction s) auto

lemma scan_spec_no_percent: "0x25 \<notin> set s \<Longrightarrow> scan_spec s = Inr 0"
  by (induction s) auto

lemma plus_to_space_hex: "ishex a \<Longrightarrow> plus_to_space a = a"
  by (auto simp: plus_to_space_def ishex_def)

lemma scan_write_map:
  "scan_spec s = Inr k \<Longrightarrow>
     scan_spec (map plus_to_space s) = Inr k \<and>
     write_spec id (map plus_to_space s) = write_spec plus_to_space s"
proof (induction s arbitrary: k rule: percent_induct)
  case Nil
  then show ?case by simp
next
  case (Escape a b s)
  from Escape.prems have h: "ishex a" "ishex b"
    by (auto split: if_splits)
  from Escape.prems h obtain k' where k': "scan_spec s = Inr k'" "k = Suc k'"
    by (cases "scan_spec s") auto
  have p: "plus_to_space 0x25 = 0x25" by (simp add: plus_to_space_def)
  show ?case
    using Escape.IH[OF k'(1)] h k'(2) by (simp add: plus_to_space_hex p)
next
  case (Short2 a)
  then show ?case by simp
next
  case Short1
  then show ?case by simp
next
  case (Other c s)
  then have k: "scan_spec s = Inr k" by simp
  have "plus_to_space c \<noteq> 0x25" using Other.hyps by (simp add: plus_to_space_def)
  then show ?case using Other.IH[OF k] Other.hyps by simp
qed

lemma unescape_eq:
  "unescape s mode =
     (case scan_spec s of
        Inl e \<Rightarrow> Some ([], Some e)
      | Inr k \<Rightarrow> Some (write_spec (if mode = encodeQueryComponent then plus_to_space else id) s, None))"
proof (cases "scan_spec s")
  case (Inl e)
  then show ?thesis by (simp add: unescape_def unescape_scan_spec)
next
  case (Inr k)
  have w: "unescape_write mode s =
       Some (write_spec (if mode = encodeQueryComponent then plus_to_space else id) s)"
    by (rule unescape_write_spec[OF Inr])
  have same: "write_spec f s = s" if "k = 0" "\<forall>c \<in> set s. f c = c" for f
    using Inr that
  proof (induction s arbitrary: k rule: percent_induct)
    case (Escape a b s)
    then show ?case by (cases "scan_spec s") (auto split: if_splits)
  qed auto
  show ?thesis
  proof (cases "k = 0 \<and> \<not> (if 0x2B \<in> set s then mode = encodeQueryComponent else False)")
    case True
    then have "\<forall>c \<in> set s. (if mode = encodeQueryComponent then plus_to_space else id) c = c"
      by (auto simp: plus_to_space_def split: if_splits)
    with same[of "if mode = encodeQueryComponent then plus_to_space else id"] True
    have "write_spec (if mode = encodeQueryComponent then plus_to_space else id) s = s" by simp
    then show ?thesis using True Inr by (simp add: unescape_def unescape_scan_spec)
  next
    case False
    then show ?thesis using Inr w by (auto simp add: unescape_def unescape_scan_spec)
  qed
qed

lemma scan_spec_append:
  "scan_spec a = Inr k \<Longrightarrow> scan_spec (a @ t) = map_sum id ((+) k) (scan_spec t)"
proof (induction a arbitrary: k rule: percent_induct)
  case Nil
  then show ?case by (cases "scan_spec t") simp_all
next
  case (Escape a b s)
  from Escape.prems have h: "ishex a" "ishex b"
    by (auto split: if_splits)
  from Escape.prems h obtain k' where k': "scan_spec s = Inr k'" "k = Suc k'"
    by (cases "scan_spec s") auto
  show ?case
    using Escape.IH[OF k'(1)] h k'(2) by (cases "scan_spec t") simp_all
next
  case (Short2 a)
  then show ?case by simp
next
  case Short1
  then show ?case by simp
next
  case (Other c s)
  then have k: "scan_spec s = Inr k" by simp
  show ?case using Other.IH[OF k] Other.hyps by simp
qed

lemma write_spec_append:
  "scan_spec a = Inr k \<Longrightarrow> write_spec f (a @ t) = write_spec f a @ write_spec f t"
proof (induction a arbitrary: k rule: percent_induct)
  case Nil
  show ?case by simp
next
  case (Escape a b s)
  from Escape.prems obtain k' where k': "scan_spec s = Inr k'"
    by (cases "scan_spec s") (auto split: if_splits)
  show ?case using Escape.IH[OF k'] by simp
next
  case (Short2 a)
  then show ?case by simp
next
  case Short1
  then show ?case by simp
next
  case (Other c s)
  then have k: "scan_spec s = Inr k" by simp
  show ?case using Other.IH[OF k] Other.hyps by simp
qed

lemma unescape_ok_iff:
  "unescape s mode = Some (out, None) \<longleftrightarrow>
     (\<exists>k. scan_spec s = Inr k) \<and>
     out = write_spec (if mode = encodeQueryComponent then plus_to_space else id) s"
  by (cases "scan_spec s") (auto simp: unescape_eq)

text \<open>
  C10: the url-query decoder and the url-path decoder fail on the same inputs, with the
  same error, and never panic. Where they succeed, the url-query decoder returns the plain
  percent-unescaping (that of the url-path decoder) of the input with every \<^verbatim>\<open>+\<close>
  replaced by a space. On every input they accept, with or without escapes, the url-path
  decoder writes each escape \<^verbatim>\<open>%XY\<close> as its byte and every other byte, \<^verbatim>\<open>+\<close> included,
  as it is, and the url-query decoder does the same but writes a \<^verbatim>\<open>+\<close> as the space 0x20
  (\<open>write_spec\<close> with the identity and with \<open>plus_to_space\<close>). So a \<^verbatim>\<open>+\<close> between two
  accepted texts stays a \<^verbatim>\<open>+\<close> between their decodings with url-path and becomes a
  space with url-query; on an input without \<^verbatim>\<open>%\<close> the url-path decoder returns the input
  and the url-query decoder the input with every \<^verbatim>\<open>+\<close> as a space. Decoding \<^verbatim>\<open>a+b\<close> gives
  \<^verbatim>\<open>a b\<close> with url-query and \<^verbatim>\<open>a+b\<close> with url-path, and \<^verbatim>\<open>%41+b\<close> gives \<^verbatim>\<open>A b\<close> and
  \<^verbatim>\<open>A+b\<close>.
\<close>

theorem url_query_plus_is_space:
  "(\<exists>out err. urlQueryDec s = Some (out, err) \<and>
      (\<exists>out'. urlPathDec s = Some (out', err)) \<and>
      (err = None \<longrightarrow> urlPathDec (map plus_to_space s) = Some (out, None))) \<and>
   (0x25 \<notin> set s \<longrightarrow>
      urlPathDec s = Some (s, None) \<and> urlQueryDec s = Some (map plus_to_space s, None)) \<and>
   ((\<exists>out. urlPathDec s = Some (out, None)) \<longrightarrow>
      urlPathDec s = Some (write_spec id s, None) \<and>
      urlQueryDec s = Some (write_spec plus_to_space s, None)) \<and>
   (\<forall>a b oa ob. urlPathDec a = Some (oa, None) \<and> urlPathDec b = Some (ob, None) \<longrightarrow>
      urlPathDec (a @ 0x2B # b) = Some (oa @ 0x2B # ob, None)) \<and>
   (\<forall>a b oa ob. urlQueryDec a = Some (oa, None) \<and> urlQueryDec b = Some (ob, None) \<longrightarrow>
      urlQueryDec (a @ 0x2B # b) = Some (oa @ 0x20 # ob, None)) \<and>
   urlQueryDec (B ''a+b'') = Some (B ''a b'', None) \<and>
   urlPathDec (B ''a+b'') = Some (B ''a+b'', None) \<and>
   urlQueryDec (B ''%41+b'') = Some (B ''A b'', None) \<and>
   urlPathDec (B ''%41+b'') = Some (B ''A+b'', None)"
proof -
  have q: "urlQueryDec t = unescape t encodeQueryComponent"
    and p: "urlPathDec t = unescape t encodePathSegment" for t
    by (simp_all add: urlQueryDec_def urlPathDec_def url_QueryUnescape_def url_PathUnescape_def
        option.map_id)
  have 1: "\<exists>out err. urlQueryDec s = Some (out, err) \<and>
      (\<exists>out'. urlPathDec s = Some (out', err)) \<and>
      (err = None \<longrightarrow> urlPathDec (map plus_to_space s) = Some (out, None))"
  proof (cases "scan_spec s")
    case (Inl e)
    then show ?thesis by (simp add: q p unescape_eq)
  next
    case (Inr k)
    then show ?thesis using scan_write_map[OF Inr] by (simp add: q p unescape_eq)
  qed
  have 2: "urlPathDec s = Some (s, None) \<and> urlQueryDec s = Some (map plus_to_space s, None)"
    if "0x25 \<notin> set s"
    using that by (simp add: q p unescape_eq scan_spec_no_percent write_spec_no_percent)
  have 3: "urlQueryDec (B ''a+b'') = Some (B ''a b'', None)"
    "urlPathDec (B ''a+b'') = Some (B ''a+b'', None)"
    "urlQueryDec (B ''%41+b'') = Some (B ''A b'', None)"
    "urlPathDec (B ''%41+b'') = Some (B ''A+b'', None)"
    by (simp_all add: q p unescape_eq B_def plus_to_space_def ishex_def unhex_def)
  have 4: "urlPathDec s = Some (write_spec id s, None) \<and>
      urlQueryDec s = Some (write_spec plus_to_space s, None)"
    if "\<exists>out. urlPathDec s = Some (out, None)"
    using that by (cases "scan_spec s") (simp_all add: q p unescape_eq)
  have 5: "urlPathDec (a @ 0x2B # b) = Some (oa @ 0x2B # ob, None)"
    if "urlPathDec a = Some (oa, None)" "urlPathDec b = Some (ob, None)" for a b oa ob
  proof -
    from that obtain ka kb where k: "scan_spec a = Inr ka" "scan_spec b = Inr kb"
      and o: "oa = write_spec id a" "ob = write_spec id b"
      by (auto simp: p unescape_ok_iff)
    have "scan_spec (a @ 0x2B # b) = Inr (ka + kb)"
      using k by (simp add: scan_spec_append)
    moreover have "write_spec id (a @ 0x2B # b) = oa @ 0x2B # ob"
      using k o by (simp add: write_spec_append)
    ultimately show ?thesis by (simp add: p unescape_eq)
  qed
  have 6: "urlQueryDec (a @ 0x2B # b) = Some (oa @ 0x20 # ob, None)"
    if "urlQueryDec a = Some (oa, None)" "urlQueryDec b = Some (ob, None)" for a b oa ob
  proof -
    from that obtain ka kb where k: "scan_spec a = Inr ka" "scan_spec b = Inr kb"
      and o: "oa = write_spec plus_to_space a" "ob = write_spec plus_to_space b"
      by (auto simp: q unescape_ok_iff)
    have "scan_spec (a @ 0x2B # b) = Inr (ka + kb)"
      using k by (simp add: scan_spec_append)
    moreover have "write_spec plus_to_space (a @ 0x2B # b) = oa @ 0x20 # ob"
      using k o by (simp add: write_spec_append plus_to_space_def)
    ultimately show ?thesis by (simp add: q unescape_eq)
  qed
  show ?thesis using 1 2 3 4 5 6 by blast
qed

theorem url_query_plus_is_space_witness:
  "0x25 \<notin> set (B ''x+y+z'') \<and>
   urlPathDec (B ''x+y+z'') = Some (B ''x+y+z'', None) \<and>
   urlQueryDec (B ''x+y+z'') = Some (B ''x y z'', None) \<and>
   urlPathDec (B ''%41'') = Some (B ''A'', None) \<and> urlPathDec (B ''b%2B'') = Some (B ''b+'', None) \<and>
   urlPathDec (B ''%41'' @ 0x2B # B ''b%2B'') = Some (B ''A'' @ 0x2B # B ''b+'', None) \<and>
   urlQueryDec (B ''%41'' @ 0x2B # B ''b%2B'') = Some (B ''A'' @ 0x20 # B ''b+'', None)"
proof -
  have q: "urlQueryDec t = unescape t encodeQueryComponent"
    and p: "urlPathDec t = unescape t encodePathSegment" for t
    by (simp_all add: urlQueryDec_def urlPathDec_def url_QueryUnescape_def url_PathUnescape_def
        option.map_id)
  have a: "0x25 \<notin> set (B ''x+y+z'')" by (simp add: B_def)
  have b: "map plus_to_space (B ''x+y+z'') = B ''x y z''" by (simp add: B_def plus_to_space_def)
  have c: "urlPathDec (B ''%41'') = Some (B ''A'', None)"
    "urlPathDec (B ''b%2B'') = Some (B ''b+'', None)"
    "urlQueryDec (B ''%41'') = Some (B ''A'', None)"
    "urlQueryDec (B ''b%2B'') = Some (B ''b+'', None)"
    by (simp_all add: q p unescape_eq B_def plus_to_space_def ishex_def unhex_def)
  show ?thesis
    using url_query_plus_is_space[of "B ''x+y+z''"] a b c by simp
qed

section \<open>Properties of the float-hex transforms\<close>

text \<open>
  What each loop returns: the error of the first word that does not parse, with no bytes;
  or, when every word parses, what was appended for each word in turn.
\<close>

lemma float32hexDec_loop_fail:
  "find (\<lambda>w. snd (strconv_ParseUint w 16 32) \<noteq> None) words = Some w \<Longrightarrow>
     float32hexDec_loop lib dst words = ([], snd (strconv_ParseUint w 16 32))"
proof (induction words arbitrary: dst)
  case Nil
  then show ?case by simp
next
  case (Cons x words)
  show ?case
  proof (cases "strconv_ParseUint x 16 32")
    case (Pair s err)
    show ?thesis
      using Cons Pair by (cases err) (simp_all add: Let_def)
  qed
qed

lemma float32hexDec_loop_ok:
  "find (\<lambda>w. snd (strconv_ParseUint w 16 32) \<noteq> None) words = None \<Longrightarrow>
     float32hexDec_loop lib dst words =
       (dst @ concat (map (\<lambda>w. fmt_g32 lib (ucast (fst (strconv_ParseUint w 16 32))) @ B '' '') words),
        None)"
proof (induction words arbitrary: dst)
  case Nil
  then show ?case by simp
next
  case (Cons x words)
  show ?case
  proof (cases "strconv_ParseUint x 16 32")
    case (Pair s err)
    show ?thesis
      using Cons Pair by (cases err) (simp_all add: Let_def)
  qed
qed

lemma float16hexDec_loop_fail:
  "find (\<lambda>w. snd (strconv_ParseUint w 16 16) \<noteq> None) words = Some w \<Longrightarrow>
     float16hexDec_loop lib dst words = ([], snd (strconv_ParseUint w 16 16))"
proof (induction words arbitrary: dst)
  case Nil
  then show ?case by simp
next
  case (Cons x words)
  show ?case
  proof (cases "strconv_ParseUint x 16 16")
    case (Pair s err)
    show ?thesis
      using Cons Pair by (cases err) (simp_all add: Let_def)
  qed
qed

lemma float32hexEnc_loop_fail:
  "find (\<lambda>w. snd (strconv_ParseFloat32 lib w) \<noteq> None) words = Some w \<Longrightarrow>
     float32hexEnc_loop lib dst words = ([], snd (strconv_ParseFloat32 lib w))"
proof (induction words arbitrary: dst)
  case Nil
  then show ?case by simp
next
  case (Cons x words)
  show ?case
  proof (cases "strconv_ParseFloat32 lib x")
    case (Pair s err)
    show ?thesis
      using Cons Pair by (cases err) (simp_all add: Let_def)
  qed
qed

lemma float32hexEnc_loop_ok:
  "find (\<lambda>w. snd (strconv_ParseFloat32 lib w) \<noteq> None) words = None \<Longrightarrow>
     float32hexEnc_loop lib dst words =
       (dst @ concat (map (\<lambda>w. fmt_X 8 (ucast (fst (strconv_ParseFloat32 lib w))) @ B '' '') words),
        None)"
proof (induction words arbitrary: dst)
  case Nil
  then show ?case by simp
next
  case (Cons x words)
  show ?case
  proof (cases "strconv_ParseFloat32 lib x")
    case (Pair s err)
    show ?thesis
      using Cons Pair by (cases err) (simp_all add: Let_def)
  qed
qed

lemma float16hexEnc_loop_fail:
  "find (\<lambda>w. snd (strconv_ParseFloat32 lib w) \<noteq> None) words = Some w \<Longrightarrow>
     float16hexEnc_loop lib dst words = ([], snd (strconv_ParseFloat32 lib w))"
proof (induction words arbitrary: dst)
  case Nil
  then show ?case by simp
next
  case (Cons x words)
  show ?case
  proof (cases "strconv_ParseFloat32 lib x")
    case (Pair s err)
    show ?thesis
      using Cons Pair by (cases err) (simp_all add: Let_def)
  qed
qed

lemma find_fails:
  "\<exists>w \<in> set words. P w \<Longrightarrow> \<exists>w. find P words = Some w \<and> w \<in> set words \<and> P w"
  by (induction words) auto

lemma exec_fail: "f (strip_input sn stdin) = (out, Some e) \<Longrightarrow> exec f sn en stdin = ([], Some e)"
  by (simp add: exec_def Let_def)

subsection \<open>Evaluation on concrete words\<close>

lemma cutoff16: "((- 1) div 16 + 1 :: 64 word) = 0x1000000000000000"
proof -
  have m1: "(- 1 :: 64 word) = 0xFFFFFFFFFFFFFFFF" by simp
  have c2: "((0xFFFFFFFFFFFFFFFF :: 64 word) div 16) = 0x0FFFFFFFFFFFFFFF"
    by (simp add: word_unat_eq_iff unat_div)
  show ?thesis unfolding m1 c2 by simp
qed

lemma le_16_1: "\<not> (16 :: byte) \<le> 1"
  by (simp add: word_le_nat_alt)

lemma pu_zz: "strconv_ParseUint (B ''zz'') 16 32 = (0, Some (syntaxError ''ParseUint'' (B ''zz'')))"
  by (simp add: strconv_ParseUint_def B_def digit_val_def lower_def Let_def)

lemma pu_3fc: "strconv_ParseUint (B ''3FC00000'') 16 32 = (0x3FC00000, None)"
  by (simp add: strconv_ParseUint_def B_def digit_val_def lower_def Let_def cutoff16 le_16_1)

lemma pu_12345: "strconv_ParseUint (B ''12345'') 16 16 = (0xFFFF, Some (rangeError ''ParseUint'' (B ''12345'')))"
  by (simp add: strconv_ParseUint_def B_def digit_val_def lower_def Let_def cutoff16 le_16_1)

lemma fields1: "strings_Fields (B ''3FC00000 zz'') = [B ''3FC00000'', B ''zz'']"
  by (simp add: strings_Fields_def B_def RuneSelf_def asciiSpace_def)

lemmas pf_eval = strconv_ParseFloat32_def special_def read_decimal_def read_sign_def
  is_digit_def digits_val_def round_decimal32_def round32_def floor_log2_def bitlen.simps Let_def

lemma pf_15: "strconv_ParseFloat32 lib (B ''1.5'') = (0x3FC00000, None)"
  by (simp add: B_def pf_eval)

lemma pf_1e40: "strconv_ParseFloat32 lib (B ''1e40'') = (0x7F800000, Some (rangeError ''ParseFloat'' (B ''1e40'')))"
  by (simp add: B_def pf_eval)

lemma pu_3c00: "strconv_ParseUint (B ''3C00'') 16 16 = (0x3C00, None)"
  by (simp add: strconv_ParseUint_def B_def digit_val_def lower_def Let_def cutoff16 le_16_1)

lemma fields2: "strings_Fields (B ''3C00 12345'') = [B ''3C00'', B ''12345'']"
  by (simp add: strings_Fields_def B_def RuneSelf_def asciiSpace_def)

lemma fields3: "strings_Fields (B ''1.5 1e40'') = [B ''1.5'', B ''1e40'']"
  by (simp add: strings_Fields_def B_def RuneSelf_def asciiSpace_def)

lemma strip1: "strip_input True (B ''3FC00000 zz\<newline>'') = B ''3FC00000 zz''"
  by (simp add: strip_input_def B_def)


text \<open>
  C6: for each of the four float-hex functions, if some white-space separated word of the
  input does not parse (as an unsigned hex integer of 32 or 16 bits when decoding, as a
  floating-point literal when encoding), the function returns no bytes and an error, the
  error of the first such word, whatever the words before it were; and \<^verbatim>\<open>exec\<close> then
  writes nothing to standard output and returns that error.
\<close>

theorem float_hex_parse_failure_aborts:
  "((\<exists>w \<in> set (strings_Fields src). snd (strconv_ParseUint w 16 32) \<noteq> None) \<longrightarrow>
      (\<exists>w e. find (\<lambda>w. snd (strconv_ParseUint w 16 32) \<noteq> None) (strings_Fields src) = Some w \<and>
         strconv_ParseUint w 16 32 = (fst (strconv_ParseUint w 16 32), Some e) \<and>
         float32hexDec lib src = ([], Some e))) \<and>
   ((\<exists>w \<in> set (strings_Fields src). snd (strconv_ParseUint w 16 16) \<noteq> None) \<longrightarrow>
      (\<exists>w e. find (\<lambda>w. snd (strconv_ParseUint w 16 16) \<noteq> None) (strings_Fields src) = Some w \<and>
         strconv_ParseUint w 16 16 = (fst (strconv_ParseUint w 16 16), Some e) \<and>
         float16hexDec lib src = ([], Some e))) \<and>
   ((\<exists>w \<in> set (strings_Fields src). snd (strconv_ParseFloat32 lib w) \<noteq> None) \<longrightarrow>
      (\<exists>w e. find (\<lambda>w. snd (strconv_ParseFloat32 lib w) \<noteq> None) (strings_Fields src) = Some w \<and>
         strconv_ParseFloat32 lib w = (fst (strconv_ParseFloat32 lib w), Some e) \<and>
         float32hexEnc lib src = ([], Some e) \<and> float16hexEnc lib src = ([], Some e))) \<and>
   (\<forall>f \<in> {float32hexDec lib, float16hexDec lib, float32hexEnc lib, float16hexEnc lib}.
      \<forall>sn en stdin out e. f (strip_input sn stdin) = (out, Some e) \<longrightarrow>
        exec f sn en stdin = ([], Some e))"
proof -
  have 1: "\<exists>w e. find (\<lambda>w. snd (strconv_ParseUint w 16 32) \<noteq> None) (strings_Fields src) = Some w \<and>
         strconv_ParseUint w 16 32 = (fst (strconv_ParseUint w 16 32), Some e) \<and>
         float32hexDec lib src = ([], Some e)"
    if "\<exists>w \<in> set (strings_Fields src). snd (strconv_ParseUint w 16 32) \<noteq> None"
  proof -
    from find_fails[OF that] obtain w e
      where w: "find (\<lambda>w. snd (strconv_ParseUint w 16 32) \<noteq> None) (strings_Fields src) = Some w"
        and e: "snd (strconv_ParseUint w 16 32) = Some e" by auto
    from e have "strconv_ParseUint w 16 32 = (fst (strconv_ParseUint w 16 32), Some e)"
      by (metis prod.collapse)
    then show ?thesis
      using float32hexDec_loop_fail[OF w, of lib "[]"] w e by (auto simp: float32hexDec_def)
  qed
  have 2: "\<exists>w e. find (\<lambda>w. snd (strconv_ParseUint w 16 16) \<noteq> None) (strings_Fields src) = Some w \<and>
         strconv_ParseUint w 16 16 = (fst (strconv_ParseUint w 16 16), Some e) \<and>
         float16hexDec lib src = ([], Some e)"
    if "\<exists>w \<in> set (strings_Fields src). snd (strconv_ParseUint w 16 16) \<noteq> None"
  proof -
    from find_fails[OF that] obtain w e
      where w: "find (\<lambda>w. snd (strconv_ParseUint w 16 16) \<noteq> None) (strings_Fields src) = Some w"
        and e: "snd (strconv_ParseUint w 16 16) = Some e" by auto
    from e have "strconv_ParseUint w 16 16 = (fst (strconv_ParseUint w 16 16), Some e)"
      by (metis prod.collapse)
    then show ?thesis
      using float16hexDec_loop_fail[OF w, of lib "[]"] w e by (auto simp: float16hexDec_def)
  qed
  have 3: "\<exists>w e. find (\<lambda>w. snd (strconv_ParseFloat32 lib w) \<noteq> None) (strings_Fields src) = Some w \<and>
         strconv_ParseFloat32 lib w = (fst (strconv_ParseFloat32 lib w), Some e) \<and>
         float32hexEnc lib src = ([], Some e) \<and> float16hexEnc lib src = ([], Some e)"
    if "\<exists>w \<in> set (strings_Fields src). snd (strconv_ParseFloat32 lib w) \<noteq> None"
  proof -
    from find_fails[OF that] obtain w e
      where w: "find (\<lambda>w. snd (strconv_ParseFloat32 lib w) \<noteq> None) (strings_Fields src) = Some w"
        and e: "snd (strconv_ParseFloat32 lib w) = Some e" by auto
    from e have "strconv_ParseFloat32 lib w = (fst (strconv_ParseFloat32 lib w), Some e)"
      by (metis prod.collapse)
    then show ?thesis
      using float32hexEnc_loop_fail[OF w, of "[]"] float16hexEnc_loop_fail[OF w, of "[]"] w e
      by (auto simp: float32hexEnc_def float16hexEnc_def)
  qed
  have 4: "\<forall>f \<in> {float32hexDec lib, float16hexDec lib, float32hexEnc lib, float16hexEnc lib}.
      \<forall>sn en stdin out e. f (strip_input sn stdin) = (out, Some e) \<longrightarrow>
        exec f sn en stdin = ([], Some e)"
    using exec_fail by blast
  show ?thesis using 1 2 3 4 by blast
qed

theorem float_hex_parse_failure_aborts_witness:
  "float32hexDec \<lparr>atof32_other = \<lambda>s. (0, Some (syntaxError ''ParseFloat'' s)),
       format_finite32 = \<lambda>b. B ''1.5'', f16_Fromfloat32 = \<lambda>f. 0x3E00,
       f16_Float32 = \<lambda>h. 0x3FC00000\<rparr> (B ''3FC00000 zz'')
     = ([], Some (syntaxError ''ParseUint'' (B ''zz''))) \<and>
   float16hexDec \<lparr>atof32_other = \<lambda>s. (0, Some (syntaxError ''ParseFloat'' s)),
       format_finite32 = \<lambda>b. B ''1.5'', f16_Fromfloat32 = \<lambda>f. 0x3E00,
       f16_Float32 = \<lambda>h. 0x3FC00000\<rparr> (B ''3C00 12345'')
     = ([], Some (rangeError ''ParseUint'' (B ''12345''))) \<and>
   float32hexEnc \<lparr>atof32_other = \<lambda>s. (0, Some (syntaxError ''ParseFloat'' s)),
       format_finite32 = \<lambda>b. B ''1.5'', f16_Fromfloat32 = \<lambda>f. 0x3E00,
       f16_Float32 = \<lambda>h. 0x3FC00000\<rparr> (B ''1.5 1e40'')
     = ([], Some (rangeError ''ParseFloat'' (B ''1e40''))) \<and>
   float16hexEnc \<lparr>atof32_other = \<lambda>s. (0, Some (syntaxError ''ParseFloat'' s)),
       format_finite32 = \<lambda>b. B ''1.5'', f16_Fromfloat32 = \<lambda>f. 0x3E00,
       f16_Float32 = \<lambda>h. 0x3FC00000\<rparr> (B ''1.5 1e40'')
     = ([], Some (rangeError ''ParseFloat'' (B ''1e40''))) \<and>
   exec (float32hexDec \<lparr>atof32_other = \<lambda>s. (0, Some (syntaxError ''ParseFloat'' s)),
       format_finite32 = \<lambda>b. B ''1.5'', f16_Fromfloat32 = \<lambda>f. 0x3E00,
       f16_Float32 = \<lambda>h. 0x3FC00000\<rparr>) True True (B ''3FC00000 zz\<newline>'')
     = ([], Some (syntaxError ''ParseUint'' (B ''zz'')))"
proof -
  define L where "L = \<lparr>atof32_other = \<lambda>s. (0, Some (syntaxError ''ParseFloat'' s)),
       format_finite32 = \<lambda>b. B ''1.5'', f16_Fromfloat32 = \<lambda>f. 0x3E00,
       f16_Float32 = (\<lambda>h. 0x3FC00000) :: 16 word \<Rightarrow> 32 word\<rparr>"
  note T1 = float_hex_parse_failure_aborts[of "B ''3FC00000 zz''" L]
  note T2 = float_hex_parse_failure_aborts[of "B ''3C00 12345''" L]
  note T3 = float_hex_parse_failure_aborts[of "B ''1.5 1e40''" L]
  have a: "float32hexDec L (B ''3FC00000 zz'') = ([], Some (syntaxError ''ParseUint'' (B ''zz'')))"
    using T1 by (simp add: fields1 pu_zz pu_3fc)
  have b: "float16hexDec L (B ''3C00 12345'') = ([], Some (rangeError ''ParseUint'' (B ''12345'')))"
    using T2 by (simp add: fields2 pu_12345 pu_3c00)
  have c: "float32hexEnc L (B ''1.5 1e40'') = ([], Some (rangeError ''ParseFloat'' (B ''1e40''))) \<and>
           float16hexEnc L (B ''1.5 1e40'') = ([], Some (rangeError ''ParseFloat'' (B ''1e40'')))"
    using T3 by (simp add: fields3 pf_15 pf_1e40)
  have d: "exec (float32hexDec L) True True (B ''3FC00000 zz\<newline>'')
             = ([], Some (syntaxError ''ParseUint'' (B ''zz'')))"
    using T1 a by (simp add: strip1)
  show ?thesis using a b c d unfolding L_def by simp
qed

section \<open>Properties of \<^verbatim>\<open>%.8X\<close> and of the float32-hex encoder\<close>

lemma map_const_replicate: "(\<And>x. x \<in> set xs \<Longrightarrow> f x = c) \<Longrightarrow> map f xs = replicate (length xs) c"
  by (induction xs) auto

lemma rev_upt_Suc: "rev [0..<Suc k] = rev (map Suc [0..<k]) @ [0]"
proof -
  have "[0..<Suc k] = 0 # map Suc [0..<k]"
    by (simp add: upt_conv_Cons map_Suc_upt del: upt_Suc)
  then show ?thesis by (simp del: upt_Suc)
qed

lemma udigits_0: "udigits ! 0 = 0x30"
  by (simp add: udigits_def B_def)

lemma small_nibble0: "u < 16 \<Longrightarrow> (u :: 64 word) AND 0xF = u"
  using less_mask_eq[of u 4] by (simp add: mask_eq_exp_minus_1)

lemma small_drop0: "u < 16 \<Longrightarrow> 0 < i \<Longrightarrow> drop_bit (4 * i) (u :: 64 word) = 0"
proof -
  assume u: "u < 16" and i: "0 < i"
  from u have "unat u < 16" by (simp add: word_less_nat_alt)
  moreover have "(16::nat) \<le> 2 ^ (4 * i)"
  proof -
    have "(2::nat) ^ 4 \<le> 2 ^ (4 * i)" using i by (intro power_increasing) auto
    then show ?thesis by simp
  qed
  ultimately have z: "unat u div 2 ^ (4 * i) = 0" by simp
  have "unat (drop_bit (4 * i) u) = drop_bit (4 * i) (unat u)"
    by (rule unat_drop_bit_eq)
  also have "\<dots> = unat u div 2 ^ (4 * i)" by (rule drop_bit_eq_div)
  finally have "unat (drop_bit (4 * i) u) = 0" using z by simp
  then show ?thesis by (simp only: unat_eq_0)
qed

lemma nibble_small: "u < 16 \<Longrightarrow> 0 < i \<Longrightarrow> nibble_digit u i = 0x30"
  unfolding nibble_digit_def by (simp add: small_drop0 udigits_0)

lemma nibble_digit_drop: "nibble_digit (drop_bit 4 u) i = nibble_digit u (Suc i)"
  by (simp add: nibble_digit_def drop_bit_drop_bit add.commute)

lemma hex_digits_rev_nibbles:
  "unat u < 16 ^ Suc k \<Longrightarrow>
     replicate (Suc k - length (hex_digits_rev u)) 0x30 @ rev (hex_digits_rev u)
       = map (nibble_digit u) (rev [0..<Suc k])"
proof (induction k arbitrary: u)
  case 0
  then have u: "u < 16" by (simp add: word_less_nat_alt)
  then have "\<not> 16 \<le> u" by simp
  then have h: "hex_digits_rev u = [udigits ! unat u]"
    by (subst hex_digits_rev.simps) simp
  show ?case by (simp add: h nibble_digit_def small_nibble0[OF u])
next
  case (Suc k)
  show ?case
  proof (cases "u \<ge> 16")
    case False
    then have u: "u < 16" by simp
    have h: "hex_digits_rev u = [udigits ! unat u]"
      using False by (subst hex_digits_rev.simps) simp
    have z: "map (nibble_digit u) (rev (map Suc [0..<Suc k])) = replicate (Suc k) 0x30"
    proof -
      have "map (nibble_digit u) (rev (map Suc [0..<Suc k]))
              = replicate (length (rev (map Suc [0..<Suc k]))) 0x30"
        by (rule map_const_replicate) (auto intro!: nibble_small[OF u])
      then show ?thesis by simp
    qed
    have n0: "nibble_digit u 0 = udigits ! unat u"
      by (simp add: nibble_digit_def small_nibble0[OF u])
    have "replicate (Suc (Suc k) - length (hex_digits_rev u)) 0x30 @ rev (hex_digits_rev u)
            = replicate (Suc k) 0x30 @ [udigits ! unat u]"
      by (simp add: h)
    also have "\<dots> = map (nibble_digit u) (rev [0..<Suc (Suc k)])"
      unfolding rev_upt_Suc[of "Suc k"] by (simp only: map_append z) (simp add: n0)
    finally show ?thesis .
  next
    case True
    then have ge: "16 \<le> unat u" by (simp add: word_le_nat_alt)
    have h: "hex_digits_rev u = udigits ! unat (u AND 0xF) # hex_digits_rev (drop_bit 4 u)"
      using True by (subst hex_digits_rev.simps) simp
    have d: "unat (drop_bit 4 u) = unat u div 16"
      by (simp add: drop_bit_eq_div unat_div)
    have "unat u div 16 < 16 ^ Suc k" using Suc.prems by simp
    then have lt: "unat (drop_bit 4 u) < 16 ^ Suc k" using d by simp
    note ih = Suc.IH[OF lt]
    have m: "map (nibble_digit u) (rev (map Suc [0..<Suc k]))
               = map (nibble_digit (drop_bit 4 u)) (rev [0..<Suc k])"
      by (simp add: rev_map nibble_digit_drop comp_def del: upt_Suc)
    have n0: "nibble_digit u 0 = udigits ! unat (u AND 0xF)"
      by (simp add: nibble_digit_def)
    have "replicate (Suc (Suc k) - length (hex_digits_rev u)) 0x30 @ rev (hex_digits_rev u)
            = (replicate (Suc k - length (hex_digits_rev (drop_bit 4 u))) 0x30
                 @ rev (hex_digits_rev (drop_bit 4 u))) @ [udigits ! unat (u AND 0xF)]"
      by (simp add: h)
    also have "\<dots> = map (nibble_digit (drop_bit 4 u)) (rev [0..<Suc k]) @ [nibble_digit u 0]"
      by (simp only: ih n0)
    also have "\<dots> = map (nibble_digit u) (rev [0..<Suc (Suc k)])"
      unfolding rev_upt_Suc[of "Suc k"] by (simp only: map_append m) simp
    finally show ?thesis .
  qed
qed

lemma fmt_X_nibbles:
  "unat u < 16 ^ Suc k \<Longrightarrow> fmt_X (Suc k) u = map (nibble_digit u) (rev [0..<Suc k])"
  by (simp add: fmt_X_def Let_def hex_digits_rev_nibbles del: upt_Suc)

lemma unat_ucast_32_64: "unat (ucast (b :: 32 word) :: 64 word) = unat b"
proof -
  have "unat b < 2 ^ 32" using unsigned_less[of b] by simp
  then have "unat b < 2 ^ 64" by simp
  then have "take_bit 64 (unat b) = unat b" by (rule take_bit_nat_eq_self)
  then show ?thesis by (simp add: unsigned_ucast_eq)
qed

lemma unat_ucast_32_lt: "unat (ucast (b :: 32 word) :: 64 word) < 16 ^ 8"
  using unsigned_less[of b] by (simp add: unat_ucast_32_64)

lemma rev_upt_8: "rev [0..<8] = [7, 6, 5, 4, 3, 2, 1, 0::nat]"
  by (simp add: upt_rec)

lemma fmt_X_8: "fmt_X 8 (ucast (b :: 32 word)) = map (nibble_digit (ucast b)) [7, 6, 5, 4, 3, 2, 1, 0]"
proof -
  have e: "Suc 7 = 8" by simp
  have "fmt_X (Suc 7) (ucast b) = map (nibble_digit (ucast b)) (rev [0..<Suc 7])"
    by (rule fmt_X_nibbles) (use unat_ucast_32_lt[of b] in simp)
  then show ?thesis unfolding e rev_upt_8 .
qed

lemma unat_and_0xF_64: "unat ((x :: 64 word) AND 0xF) = unat x mod 16"
proof -
  have "x AND 0xF = take_bit 4 x" by (simp add: take_bit_eq_mask mask_eq_exp_minus_1)
  then show ?thesis by (simp add: take_bit_eq_mod unat_mod)
qed

lemma unat_and_0xF_32: "unat ((x :: 32 word) AND 0xF) = unat x mod 16"
proof -
  have "x AND 0xF = take_bit 4 x" by (simp add: take_bit_eq_mask mask_eq_exp_minus_1)
  then show ?thesis by (simp add: take_bit_eq_mod unat_mod)
qed

lemma nibble_digit_ucast:
  "nibble_digit (ucast (b :: 32 word)) i = udigits ! unat (drop_bit (4 * i) b AND 0xF)"
proof -
  have "unat (drop_bit (4 * i) (ucast b :: 64 word)) = unat (drop_bit (4 * i) b)"
    by (simp only: unat_drop_bit_eq unat_ucast_32_64)
  then show ?thesis
    by (simp only: nibble_digit_def unat_and_0xF_64 unat_and_0xF_32)
qed

lemma udigits_nth: "n < 16 \<Longrightarrow> udigits ! n = B ''0123456789ABCDEF'' ! n"
proof -
  assume n: "n < 16"
  have l: "length (B ''0123456789ABCDEF'') = 16" by (simp add: B_def)
  have u: "udigits = B ''0123456789ABCDEF'' @ [0x58]" by (simp add: udigits_def B_def)
  show ?thesis unfolding u using n by (simp add: nth_append l)
qed

lemma fmt_X_8_digits:
  "fmt_X 8 (ucast (b :: 32 word)) =
     map (\<lambda>i. B ''0123456789ABCDEF'' ! unat (drop_bit (4 * i) b AND 0xF)) [7, 6, 5, 4, 3, 2, 1, 0]"
proof -
  have "nibble_digit (ucast b) i = B ''0123456789ABCDEF'' ! unat (drop_bit (4 * i) b AND 0xF)" for i
    unfolding nibble_digit_ucast by (rule udigits_nth) (simp add: unat_and_0xF_32)
  then show ?thesis by (simp only: fmt_X_8 list.map)
qed

lemma fields_15: "strings_Fields (B ''1.5'') = [B ''1.5'']"
  by (simp add: strings_Fields_def B_def RuneSelf_def asciiSpace_def)

lemma fields_3: "strings_Fields (B '' 0.1\<newline>-2  1e10 '') = [B ''0.1'', B ''-2'', B ''1e10'']"
  by (simp add: strings_Fields_def B_def RuneSelf_def asciiSpace_def)

lemma pf_01: "strconv_ParseFloat32 lib (B ''0.1'') = (0x3DCCCCCD, None)"
  by (simp add: B_def pf_eval)

lemma pf_m2: "strconv_ParseFloat32 lib (B ''-2'') = (0xC0000000, None)"
  by (simp add: B_def pf_eval special_inf_def)

lemma pf_1e10: "strconv_ParseFloat32 lib (B ''1e10'') = (0x501502F9, None)"
  by (simp add: B_def pf_eval)

lemmas fmt_X_eval = fmt_X_def hex_digits_rev.simps udigits_def Let_def

lemma fx_1: "fmt_X 8 0x3FC00000 = B ''3FC00000''"
  by (simp add: fmt_X_eval B_def)

lemma fx_2: "fmt_X 8 0x3DCCCCCD = B ''3DCCCCCD''"
  by (simp add: fmt_X_eval B_def)

lemma fx_3: "fmt_X 8 0xC0000000 = B ''C0000000''"
  by (simp add: fmt_X_eval B_def)

lemma fx_4: "fmt_X 8 0x501502F9 = B ''501502F9''"
  by (simp add: fmt_X_eval B_def)

text \<open>
  C4: when every word of the input parses, \<^verbatim>\<open>float32hexEnc\<close> returns, for each word of
  \<^verbatim>\<open>strings.Fields\<close> in turn, the \<^verbatim>\<open>%.8X\<close> text of the bits of the parsed \<^verbatim>\<open>float32\<close>
  followed by one space, and no error; the \<^verbatim>\<open>%.8X\<close> text of a 32-bit pattern is its eight
  hexadecimal digits, upper case, most significant first, zeros included; the input
  \<^verbatim>\<open>1.5\<close> gives \<^verbatim>\<open>3FC00000\<close> and a space.
\<close>

theorem float32hexEnc_tokens:
  "((\<forall>w \<in> set (strings_Fields src). snd (strconv_ParseFloat32 lib w) = None) \<longrightarrow>
      float32hexEnc lib src =
        (concat (map (\<lambda>w. fmt_X 8 (ucast (fst (strconv_ParseFloat32 lib w))) @ B '' '')
                     (strings_Fields src)), None)) \<and>
   (\<forall>b :: 32 word. fmt_X 8 (ucast b) =
      map (\<lambda>i. B ''0123456789ABCDEF'' ! unat (drop_bit (4 * i) b AND 0xF)) [7, 6, 5, 4, 3, 2, 1, 0]) \<and>
   float32hexEnc lib (B ''1.5'') = (B ''3FC00000 '', None) \<and>
   float32hexEnc lib (B '' 0.1\<newline>-2  1e10 '') = (B ''3DCCCCCD C0000000 501502F9 '', None)"
proof -
  have 1: "float32hexEnc lib src =
        (concat (map (\<lambda>w. fmt_X 8 (ucast (fst (strconv_ParseFloat32 lib w))) @ B '' '')
                     (strings_Fields src)), None)"
    if "\<forall>w \<in> set (strings_Fields src). snd (strconv_ParseFloat32 lib w) = None"
  proof -
    from that have "find (\<lambda>w. snd (strconv_ParseFloat32 lib w) \<noteq> None) (strings_Fields src) = None"
      by (simp add: find_None_iff)
    from float32hexEnc_loop_ok[OF this, of "[]"] show ?thesis
      by (simp add: float32hexEnc_def)
  qed
  have 2: "\<forall>b :: 32 word. fmt_X 8 (ucast b) =
      map (\<lambda>i. B ''0123456789ABCDEF'' ! unat (drop_bit (4 * i) b AND 0xF)) [7, 6, 5, 4, 3, 2, 1, 0]"
    using fmt_X_8_digits by blast
  have 3: "float32hexEnc lib (B ''1.5'') = (B ''3FC00000 '', None)"
    by (simp add: float32hexEnc_def fields_15 pf_15 fx_1) (simp add: B_def)
  have 4: "float32hexEnc lib (B '' 0.1\<newline>-2  1e10 '') = (B ''3DCCCCCD C0000000 501502F9 '', None)"
    by (simp add: float32hexEnc_def fields_3 pf_01 pf_m2 pf_1e10 fx_2 fx_3 fx_4) (simp add: B_def)
  show ?thesis using 1 2 3 4 by blast
qed

theorem float32hexEnc_tokens_witness:
  "strings_Fields (B '' 0.1\<newline>-2  1e10 '') = [B ''0.1'', B ''-2'', B ''1e10''] \<and>
   strconv_ParseFloat32 \<lparr>atof32_other = \<lambda>s. (0, Some (syntaxError ''ParseFloat'' s)),
          format_finite32 = \<lambda>b. B ''1.5'', f16_Fromfloat32 = \<lambda>f. 0x3E00,
          f16_Float32 = \<lambda>h. 0x3FC00000\<rparr> (B ''0.1'') = (0x3DCCCCCD, None) \<and>
   strconv_ParseFloat32 \<lparr>atof32_other = \<lambda>s. (0, Some (syntaxError ''ParseFloat'' s)),
          format_finite32 = \<lambda>b. B ''1.5'', f16_Fromfloat32 = \<lambda>f. 0x3E00,
          f16_Float32 = \<lambda>h. 0x3FC00000\<rparr> (B ''-2'') = (0xC0000000, None) \<and>
   strconv_ParseFloat32 \<lparr>atof32_other = \<lambda>s. (0, Some (syntaxError ''ParseFloat'' s)),
          format_finite32 = \<lambda>b. B ''1.5'', f16_Fromfloat32 = \<lambda>f. 0x3E00,
          f16_Float32 = \<lambda>h. 0x3FC00000\<rparr> (B ''1e10'') = (0x501502F9, None) \<and>
   float32hexEnc \<lparr>atof32_other = \<lambda>s. (0, Some (syntaxError ''ParseFloat'' s)),
          format_finite32 = \<lambda>b. B ''1.5'', f16_Fromfloat32 = \<lambda>f. 0x3E00,
          f16_Float32 = \<lambda>h. 0x3FC00000\<rparr> (B '' 0.1\<newline>-2  1e10 '')
     = (fmt_X 8 0x3DCCCCCD @ B '' '' @ fmt_X 8 0xC0000000 @ B '' '' @ fmt_X 8 0x501502F9 @ B '' '', None) \<and>
   fmt_X 8 (ucast (0x3DCCCCCD :: 32 word)) = B ''3DCCCCCD''"
proof -
  define L where "L = \<lparr>atof32_other = \<lambda>s. (0, Some (syntaxError ''ParseFloat'' s)),
       format_finite32 = \<lambda>b. B ''1.5'', f16_Fromfloat32 = \<lambda>f. 0x3E00,
       f16_Float32 = (\<lambda>h. 0x3FC00000) :: 16 word \<Rightarrow> 32 word\<rparr>"
  note T = float32hexEnc_tokens[of "B '' 0.1\<newline>-2  1e10 ''" L]
  have h: "\<forall>w \<in> set (strings_Fields (B '' 0.1\<newline>-2  1e10 '')). snd (strconv_ParseFloat32 L w) = None"
    by (simp add: fields_3 pf_01 pf_m2 pf_1e10)
  with T have a: "float32hexEnc L (B '' 0.1\<newline>-2  1e10 '') =
        (concat (map (\<lambda>w. fmt_X 8 (ucast (fst (strconv_ParseFloat32 L w))) @ B '' '')
                     (strings_Fields (B '' 0.1\<newline>-2  1e10 ''))), None)"
    by blast
  have b: "float32hexEnc L (B '' 0.1\<newline>-2  1e10 '')
     = (fmt_X 8 0x3DCCCCCD @ B '' '' @ fmt_X 8 0xC0000000 @ B '' '' @ fmt_X 8 0x501502F9 @ B '' '', None)"
    unfolding a by (simp add: fields_3 pf_01 pf_m2 pf_1e10)
  from T have "fmt_X 8 (ucast (0x3DCCCCCD :: 32 word)) =
      map (\<lambda>i. B ''0123456789ABCDEF'' ! unat (drop_bit (4 * i) (0x3DCCCCCD :: 32 word) AND 0xF))
        [7, 6, 5, 4, 3, 2, 1, 0]"
    by blast
  also have "\<dots> = B ''3DCCCCCD''"
    by (simp add: B_def drop_bit_eq_div word_unat_eq_iff)
  finally have c: "fmt_X 8 (ucast (0x3DCCCCCD :: 32 word)) = B ''3DCCCCCD''" .
  show ?thesis using b c unfolding L_def by (simp add: fields_3 pf_01 pf_m2 pf_1e10)
qed

section \<open>The encoders return no error\<close>

lemma base64URLEnc_eq: "base64URLEnc src = (b64_Encode b64_URLEncoding src, None)"
  using length_b64_Encode[of b64_URLEncoding StdPadding src]
  by (simp add: base64URLEnc_def Let_def make_bytes_def store_exact b64_EncodedLen_def b64_URLEncoding_def)

text \<open>
  C9: for every input, the error returned by the encoder of each of the modes hex,
  hex-extended, base32, base32-crockford, base32-hex, base64, base64-url, rot13, go, json,
  html, url-path, url-query and codepoint is \<^verbatim>\<open>nil\<close>; the encoders that write into a buffer
  of the encoded length return the encoded text, which fills that buffer; and these are
  the encoders the table \<^verbatim>\<open>modes\<close> holds for these modes.
\<close>

theorem encoders_never_fail:
  "snd (hexEnc src) = None \<and>
   snd (hexExtEnc lib src) = None \<and>
   snd (base32Enc src) = None \<and>
   snd (base32CrockfordEnc src) = None \<and>
   snd (base32HexEnc src) = None \<and>
   snd (base64Enc src) = None \<and>
   snd (base64URLEnc src) = None \<and>
   snd (rot13 src) = None \<and>
   snd (goEnc src) = None \<and>
   snd (jsonEnc lib src) = None \<and>
   snd (htmlEnc lib src) = None \<and>
   snd (urlPathEnc lib src) = None \<and>
   snd (urlQueryEnc lib src) = None \<and>
   snd (codepointEnc lib src) = None \<and>
   fst (hexEnc src) = hex_Encode src \<and>
   fst (base32Enc src) = b32_Encode b32_StdEncoding src \<and>
   fst (base32CrockfordEnc src) = b32_Encode crockfordEnc src \<and>
   fst (base32HexEnc src) = b32_Encode b32_HexEncoding src \<and>
   fst (base64Enc src) = b64_Encode b64_StdEncoding src \<and>
   fst (base64URLEnc src) = b64_Encode b64_URLEncoding src \<and>
   map (\<lambda>name. map_option encoder (lookup_mode name))
     [''hex'', ''hex-extended'', ''base32'', ''base32-crockford'', ''base32-hex'', ''base64'',
      ''base64-url'', ''rot13'', ''go'', ''json'', ''html'', ''url-path'', ''url-query'',
      ''codepoint'']
   = map (\<lambda>f. Some (Some f))
     [F_hexEnc, F_hexExtEnc, F_base32Enc, F_base32CrockfordEnc, F_base32HexEnc, F_base64Enc,
      F_base64URLEnc, F_rot13, F_goEnc, F_jsonEnc, F_htmlEnc, F_urlPathEnc, F_urlQueryEnc,
      F_codepointEnc]"
  by (simp add: hexEnc_eq hexExtEnc_def base32Enc_eq base32CrockfordEnc_eq base32HexEnc_eq
      base64Enc_eq base64URLEnc_eq rot13_def goEnc_def jsonEnc_def json_Marshal_string_def
      htmlEnc_def urlPathEnc_def urlQueryEnc_def codepointEnc_def Let_def
      lookup_mode_def modes_def)

end
